theory Spec2Isabelle
  imports Complex_Main "HOL-Library.Word" "HOL-Library.Log_Nat"
begin

unbundle bit_operations_syntax

section \<open>Errors, results and decoded values\<close>

text \<open>
  The decoder of \<^verbatim>\<open>src/parsers/tiff.mjs\<close> throws at five places. They are the
  error kinds of the specification:
  \<^item> \<open>MalformedHeader\<close>: the byte order marker (line 45), the magic constant
    (line 50) and the IFD0 offset below 8 (line 198);
  \<^item> \<open>OffsetOutOfBounds\<close>: the value offset beyond the buffer (line 79), and every
    read of the byte reader that leaves the view;
  \<^item> \<open>UnknownFieldType\<close>: the default case of \<open>parseTagValue\<close> (line 121).

  Two further outcomes are JavaScript's own: \<open>TypeError\<close> is the spread of a value that
  is not iterable (\<open>postProcess\<close>, line 277), and \<open>NonIndexOffset\<close> stands for a
  directory offset that is not a number with a non-negative integer value (a string, an
  array, a fraction, an infinity, \<open>NaN\<close>, \<open>undefined\<close>): the source hands such a value to the
  byte reader as it is, and what the reader makes of it is outside the file; the model
  stops there.
\<close>

datatype error = MalformedHeader | UnknownFieldType | OffsetOutOfBounds | TypeError | NonIndexOffset

definition bindE :: "error + 'a \<Rightarrow> ('a \<Rightarrow> error + 'b) \<Rightarrow> error + 'b" where
  "bindE m f = (case m of Inl e \<Rightarrow> Inl e | Inr x \<Rightarrow> f x)"

text \<open>
  A JavaScript number, an IEEE double. \<open>Finite q\<close> is the double whose value is the
  rational \<open>q\<close>, \<open>Finite 0\<close> being the positive zero; \<open>NegZero\<close> is the negative zero, and
  the three values that are not finite are constructors of their own.
\<close>

datatype number = Finite rat | NegZero | PosInfinity | NegInfinity | NaN

datatype tag_value =
    Str string
  | Bytes "8 word list"
  | Num number
  | Arr "number list"

fun is_finite :: "number \<Rightarrow> bool" where
  "is_finite (Finite q) = True"
| "is_finite NegZero = True"
| "is_finite PosInfinity = False"
| "is_finite NegInfinity = False"
| "is_finite NaN = False"

text \<open>
  The arithmetic of doubles, as far as \<^verbatim>\<open>/\<close> (lines 113 and 117) needs it. The result
  of an operation is the double nearest to the exact result, a tie going to the double
  whose significand is even.

  \<open>roundTiesToEven y\<close> is the integer nearest to \<open>y\<close>, the even one of the two at a tie.
  \<open>binade q\<close>, for a positive \<open>q\<close>, is the exponent \<open>e\<close> with \<open>2 powi e \<le> q < 2 powi (e + 1)\<close>.
\<close>

definition roundTiesToEven :: "rat \<Rightarrow> int" where
  "roundTiesToEven y =
     (let f = \<lfloor>y\<rfloor> in
      if y - of_int f < 1 / 2 then f
      else if 1 / 2 < y - of_int f then f + 1
      else if even f then f else f + 1)"

definition binade :: "rat \<Rightarrow> int" where
  "binade q =
     (case quotient_of q of (n, d) \<Rightarrow>
        let e = bitlen n - bitlen d in if 2 powi e \<le> q then e else e - 1)"

text \<open>
  The double nearest to a rational. A double has a significand of 53 bits; between
  \<open>2 powi e\<close> and \<open>2 powi (e + 1)\<close> the doubles are the multiples of \<open>2 powi (e - 52)\<close>, and below
  \<open>2 powi (- 1022)\<close> the multiples of \<open>2 powi (- 1074)\<close>. A result of magnitude \<open>2 powi 1024\<close>
  or more is an infinity, and a result that rounds to zero keeps its sign.
\<close>

definition round_double :: "rat \<Rightarrow> number" where
  "round_double q =
     (if q = 0 then Finite 0
      else
        let e = max (binade \<bar>q\<bar>) (- 1022) - 52;
            r = of_int (roundTiesToEven (\<bar>q\<bar> / 2 powi e)) * 2 powi e
        in if 2 powi 1024 \<le> r then (if 0 < q then PosInfinity else NegInfinity)
           else if r = 0 then (if 0 < q then Finite 0 else NegZero)
           else Finite (if 0 < q then r else - r))"

text \<open>
  The operator \<^verbatim>\<open>/\<close> on two integers (the zero among them is the positive zero): a
  division by zero gives \<open>NaN\<close> or an infinity, a zero numerator a zero with the sign of
  the denominator, and every other pair the double nearest to the quotient.
\<close>

definition js_div :: "int \<Rightarrow> int \<Rightarrow> number" where
  "js_div n d =
     (if d = 0 then (if n = 0 then NaN else if 0 < n then PosInfinity else NegInfinity)
      else if n = 0 then (if 0 < d then Finite 0 else NegZero)
      else round_double (of_int n / of_int d))"

section \<open>The byte reader\<close>

text \<open>
  Modelled from the spec: the byte buffer view of \<^verbatim>\<open>util/BufferView.mjs\<close>, which is
  not under src/. The view is a window of bytes with the endianness flag that
  \<open>parseHeader\<close> sets; \<open>buffer_byteLength\<close> is \<^verbatim>\<open>view.buffer.byteLength\<close>, the length of
  the buffer under the window (line 78 compares against it).
\<close>

record BufferView =
  bytes :: "8 word list"
  le :: bool
  buffer_byteLength :: nat

text \<open>
  Modelled from the spec: a read of \<open>n\<close> bytes at an absolute byte offset. Reading past
  the view fails with \<open>OffsetOutOfBounds\<close> (sections 4.3 and 7); the reader clamps
  nothing.
\<close>

definition readBytes :: "BufferView \<Rightarrow> nat \<Rightarrow> nat \<Rightarrow> error + 8 word list" where
  "readBytes v off n =
     (if off + n \<le> length (bytes v) then Inr (take n (drop off (bytes v)))
      else Inl OffsetOutOfBounds)"

text \<open>
  Modelled from the spec: the unsigned integer of \<open>n\<close> bytes in the view's byte order,
  and the two's complement reading of such an integer.
\<close>

fun uintLE :: "8 word list \<Rightarrow> nat" where
  "uintLE [] = 0"
| "uintLE (b # bs) = unat b + 256 * uintLE bs"

definition getUint :: "nat \<Rightarrow> BufferView \<Rightarrow> nat \<Rightarrow> error + nat" where
  "getUint n v off =
     bindE (readBytes v off n) (\<lambda>bs. Inr (if le v then uintLE bs else uintLE (rev bs)))"

definition toSigned :: "nat \<Rightarrow> nat \<Rightarrow> int" where
  "toSigned n u = (if 2 ^ (8 * n - 1) \<le> u then int u - 2 ^ (8 * n) else int u)"

text \<open>
  Modelled from the spec: the value of an IEEE bit pattern \<open>u\<close> with \<open>w\<close> exponent bits and
  \<open>p\<close> fraction bits, as a JavaScript number (every 32-bit value is a double).
\<close>

definition ieee_value :: "nat \<Rightarrow> nat \<Rightarrow> nat \<Rightarrow> number" where
  "ieee_value w p u =
     (let s = u div 2 ^ (w + p); ex = u div 2 ^ p mod 2 ^ w; f = u mod 2 ^ p;
          bias = 2 ^ (w - 1) - 1
      in
        if ex = 2 ^ w - 1 then
          (if f \<noteq> 0 then NaN else if s = 0 then PosInfinity else NegInfinity)
        else if ex = 0 \<and> f = 0 then (if s = 0 then Finite 0 else NegZero)
        else
          let mag = (if ex = 0 then of_nat f * 2 powi (1 - int bias - int p)
                     else of_nat (2 ^ p + f) * 2 powi (int ex - int bias - int p))
          in Finite (if s = 0 then mag else - mag))"

text \<open>
  Modelled from the spec: the reads of the byte reader contract (section 6), unsigned
  and signed integers of 8, 16 and 32 bits, and the IEEE values of 32 and 64 bits.
\<close>

definition getUint8 :: "BufferView \<Rightarrow> nat \<Rightarrow> error + nat" where
  "getUint8 = getUint 1"

definition getUint16 :: "BufferView \<Rightarrow> nat \<Rightarrow> error + nat" where
  "getUint16 = getUint 2"

definition getUint32 :: "BufferView \<Rightarrow> nat \<Rightarrow> error + nat" where
  "getUint32 = getUint 4"

definition getInt8 :: "BufferView \<Rightarrow> nat \<Rightarrow> error + int" where
  "getInt8 v off = bindE (getUint 1 v off) (\<lambda>u. Inr (toSigned 1 u))"

definition getInt16 :: "BufferView \<Rightarrow> nat \<Rightarrow> error + int" where
  "getInt16 v off = bindE (getUint 2 v off) (\<lambda>u. Inr (toSigned 2 u))"

definition getInt32 :: "BufferView \<Rightarrow> nat \<Rightarrow> error + int" where
  "getInt32 v off = bindE (getUint 4 v off) (\<lambda>u. Inr (toSigned 4 u))"

definition getFloat :: "BufferView \<Rightarrow> nat \<Rightarrow> error + number" where
  "getFloat v off = bindE (getUint 4 v off) (\<lambda>u. Inr (ieee_value 8 23 u))"

definition getDouble :: "BufferView \<Rightarrow> nat \<Rightarrow> error + number" where
  "getDouble v off = bindE (getUint 8 v off) (\<lambda>u. Inr (ieee_value 11 52 u))"

text \<open>
  Modelled from the spec: the fixed-length ASCII read, \<open>n\<close> bytes as text, one
  character for each byte.
\<close>

definition getString :: "BufferView \<Rightarrow> nat \<Rightarrow> nat \<Rightarrow> error + string" where
  "getString v off n = bindE (readBytes v off n) (\<lambda>bs. Inr (map (\<lambda>b. char_of (unat b)) bs))"

text \<open>
  Modelled from the spec: the fixed-length raw slice, the bytes of the range
  \<open>[start, stop)\<close> (the helper \<open>slice\<close> of \<^verbatim>\<open>util/BufferView.mjs\<close>).
\<close>

definition slice :: "BufferView \<Rightarrow> nat \<Rightarrow> nat \<Rightarrow> error + 8 word list" where
  "slice v start stop = readBytes v start (stop - start)"

section \<open>The tag entry decoder\<close>

text \<open>The table \<open>SIZE_LOOKUP\<close> (lines 14 to 29): the width of each field type.\<close>

definition SIZE_LOOKUP :: "nat \<Rightarrow> nat option" where
  "SIZE_LOOKUP = map_of
     [(1, 1), (2, 1), (3, 2), (4, 4), (5, 8), (6, 1), (7, 1), (8, 2), (9, 4), (10, 8),
      (11, 4), (12, 8), (13, 4)]"

text \<open>\<open>parseTagValue\<close> (lines 108 to 123): one scalar of the given type.\<close>

definition parseTagValue :: "BufferView \<Rightarrow> nat \<Rightarrow> nat \<Rightarrow> error + number" where
  "parseTagValue v type offset =
     (if type = 1 then bindE (getUint8 v offset) (\<lambda>x. Inr (Finite (of_nat x)))
      else if type = 3 then bindE (getUint16 v offset) (\<lambda>x. Inr (Finite (of_nat x)))
      else if type = 4 then bindE (getUint32 v offset) (\<lambda>x. Inr (Finite (of_nat x)))
      else if type = 5 then
        bindE (getUint32 v offset) (\<lambda>n.
        bindE (getUint32 v (offset + 4)) (\<lambda>d. Inr (js_div (int n) (int d))))
      else if type = 6 then bindE (getInt8 v offset) (\<lambda>x. Inr (Finite (of_int x)))
      else if type = 8 then bindE (getInt16 v offset) (\<lambda>x. Inr (Finite (of_int x)))
      else if type = 9 then bindE (getInt32 v offset) (\<lambda>x. Inr (Finite (of_int x)))
      else if type = 10 then
        bindE (getInt32 v offset) (\<lambda>n.
        bindE (getInt32 v (offset + 4)) (\<lambda>d. Inr (js_div n d)))
      else if type = 11 then getFloat v offset
      else if type = 12 then getDouble v offset
      else if type = 13 then bindE (getUint32 v offset) (\<lambda>x. Inr (Finite (of_nat x)))
      else Inl UnknownFieldType)"

text \<open>
  The loop of line 85: \<^verbatim>\<open>while (string.endsWith('\0')) string = string.slice(0, -1)\<close>.
\<close>

function stripNul :: "string \<Rightarrow> string" where
  "stripNul s = (if s \<noteq> [] \<and> last s = CHR 0x00 then stripNul (butlast s) else s)"
  by pat_completeness auto
termination
  by (relation "measure length") auto

text \<open>
  The loop of lines 100 to 103. \<open>valueByteSize\<close> is the width of a known type; for an
  unknown type \<open>parseTagValue\<close> throws before the offset is advanced.
\<close>

function parseTagArray ::
  "BufferView \<Rightarrow> nat \<Rightarrow> nat \<Rightarrow> nat \<Rightarrow> nat \<Rightarrow> nat \<Rightarrow> number list \<Rightarrow> error + number list" where
  "parseTagArray v type valueByteSize valuesCount i valueOffset res =
     (if i < valuesCount then
        bindE (parseTagValue v type valueOffset) (\<lambda>x.
          parseTagArray v type valueByteSize valuesCount (i + 1) (valueOffset + valueByteSize)
            (res @ [x]))
      else Inr res)"
  by pat_completeness auto
termination
  by (relation "measure (\<lambda>(v, type, valueByteSize, valuesCount, i, valueOffset, res). valuesCount - i)") auto

text \<open>
  \<open>parseTag\<close> (lines 69 to 106). For a type outside the table \<open>SIZE_LOOKUP[type]\<close> is
  \<open>undefined\<close>, the product is \<open>NaN\<close> and \<open>NaN <= 4\<close> is false: the entry takes the
  branch of line 76.
\<close>

definition parseTag :: "BufferView \<Rightarrow> nat \<Rightarrow> error + tag_value" where
  "parseTag v offset =
     bindE (getUint16 v (offset + 2)) (\<lambda>type.
     bindE (getUint32 v (offset + 4)) (\<lambda>valuesCount.
     let valueByteSize = SIZE_LOOKUP type in
     bindE (if (case valueByteSize of None \<Rightarrow> False | Some w \<Rightarrow> w * valuesCount \<le> 4)
            then Inr (offset + 8)
            else getUint32 v (offset + 8)) (\<lambda>valueOffset.
     if buffer_byteLength v < valueOffset then Inl OffsetOutOfBounds
     else if type = 2 then
       bindE (getString v valueOffset valuesCount) (\<lambda>s. Inr (Str (stripNul s)))
     else if type = 7 then
       bindE (slice v valueOffset (valueOffset + valuesCount)) (\<lambda>b. Inr (Bytes b))
     else if valuesCount = 1 then
       bindE (parseTagValue v type valueOffset) (\<lambda>x. Inr (Num x))
     else
       bindE (parseTagArray v type (case valueByteSize of None \<Rightarrow> 0 | Some w \<Rightarrow> w)
                valuesCount 0 valueOffset [])
         (\<lambda>res. Inr (Arr res)))))"

section \<open>JavaScript objects\<close>

text \<open>
  A property key is an integer key (a tag code, written \<open>output[tag]\<close>) or another
  string (\<open>latitude\<close>, a translated tag name). An object is the list of its entries in
  JavaScript's property order: integer keys ascending, then the other keys in the order
  of their insertion.
\<close>

datatype key = Tag nat | Name string

type_synonym 'v obj = "(key \<times> 'v) list"

type_synonym block = "tag_value obj"

fun key_before :: "key \<Rightarrow> key \<Rightarrow> bool" where
  "key_before (Tag n) (Tag m) = (n < m)"
| "key_before (Tag n) (Name s) = True"
| "key_before (Name s) k = False"

text \<open>
  \<open>o[k] = v\<close>: an existing key keeps its place and takes the new value, a new key is
  inserted where the property order puts it. Then \<open>o[k]\<close> and \<open>delete o[k]\<close>.
\<close>

fun obj_insert :: "key \<Rightarrow> 'v \<Rightarrow> 'v obj \<Rightarrow> 'v obj" where
  "obj_insert k v [] = [(k, v)]"
| "obj_insert k v ((k', v') # kvs) =
     (if key_before k k' then (k, v) # (k', v') # kvs else (k', v') # obj_insert k v kvs)"

definition obj_set :: "key \<Rightarrow> 'v \<Rightarrow> 'v obj \<Rightarrow> 'v obj" where
  "obj_set k v b =
     (if k \<in> fst ` set b then map (\<lambda>kv. if fst kv = k then (k, v) else kv) b
      else obj_insert k v b)"

definition obj_get :: "'v obj \<Rightarrow> key \<Rightarrow> 'v option" where
  "obj_get b k = map_of b k"

definition obj_delete :: "key \<Rightarrow> 'v obj \<Rightarrow> 'v obj" where
  "obj_delete k b = filter (\<lambda>kv. fst kv \<noteq> k) b"

text \<open>\<open>Object.fromEntries\<close> and \<open>Object.assign\<close>; a source that is \<open>undefined\<close> is skipped.\<close>

definition Object_fromEntries :: "(key \<times> 'v) list \<Rightarrow> 'v obj" where
  "Object_fromEntries entries = fold (\<lambda>(k, v) b. obj_set k v b) entries []"

definition Object_assign :: "'v obj \<Rightarrow> 'v obj option list \<Rightarrow> 'v obj" where
  "Object_assign target sources =
     fold (\<lambda>src t. case src of None \<Rightarrow> t | Some b \<Rightarrow> fold (\<lambda>(k, v) t'. obj_set k v t') b t)
       sources target"

text \<open>Truthiness of a decoded value (\<open>||\<close> and \<open>&&\<close> of lines 236 and 276).\<close>

fun truthy_number :: "number \<Rightarrow> bool" where
  "truthy_number (Finite q) = (q \<noteq> 0)"
| "truthy_number NegZero = False"
| "truthy_number PosInfinity = True"
| "truthy_number NegInfinity = True"
| "truthy_number NaN = False"

fun truthy :: "tag_value \<Rightarrow> bool" where
  "truthy (Str s) = (s \<noteq> [])"
| "truthy (Bytes bs) = True"
| "truthy (Num n) = truthy_number n"
| "truthy (Arr xs) = True"

section \<open>The directory table decoder\<close>

text \<open>
  The options that the file reads. \<open>opt_exif\<close>, \<open>opt_gps\<close>, \<open>opt_interop\<close>,
  \<open>opt_thumbnail\<close> and \<open>opt_postProcess\<close> are \<open>options.exif\<close>, \<open>options.gps\<close>,
  \<open>options.interop\<close>, \<open>options.thumbnail\<close> and \<open>options.postProcess\<close>: the decoder has
  fields and a method of these names.
\<close>

record Options =
  pickTags :: "nat list"
  skipTags :: "nat list"
  opt_exif :: bool
  opt_gps :: bool
  opt_interop :: bool
  opt_thumbnail :: bool
  mergeOutput :: bool
  sanitize :: bool
  opt_postProcess :: bool
  translateTags :: bool
  reviveValues :: bool

text \<open>The loop of lines 58 to 65 and \<open>parseTags\<close> (lines 53 to 67).\<close>

function parseTagsLoop ::
  "BufferView \<Rightarrow> Options \<Rightarrow> nat \<Rightarrow> nat \<Rightarrow> nat \<Rightarrow> block \<Rightarrow> error + block" where
  "parseTagsLoop v opts entriesCount i offset out =
     (if i < entriesCount then
        bindE (getUint16 v offset) (\<lambda>tag.
          if tag \<in> set (pickTags opts) \<or> tag \<notin> set (skipTags opts) then
            bindE (parseTag v offset) (\<lambda>val.
              parseTagsLoop v opts entriesCount (i + 1) (offset + 12) (obj_set (Tag tag) val out))
          else parseTagsLoop v opts entriesCount (i + 1) (offset + 12) out)
      else Inr out)"
  by pat_completeness auto
termination
  by (relation "measure (\<lambda>(v, opts, entriesCount, i, offset, out). entriesCount - i)") auto

definition parseTags :: "BufferView \<Rightarrow> Options \<Rightarrow> nat \<Rightarrow> error + block" where
  "parseTags v opts offset =
     bindE (getUint16 v offset) (\<lambda>entriesCount.
       parseTagsLoop v opts entriesCount 0 (offset + 2) [])"

text \<open>
  A block offset taken from a pointer tag is whatever value that tag decoded to, of
  whatever field type. The directory is read where the value is a number that is a
  non-negative integer (either zero is the offset 0).
\<close>

definition toIndex :: "tag_value \<Rightarrow> nat option" where
  "toIndex x =
     (case x of
        Num (Finite q) \<Rightarrow>
          (case quotient_of q of (n, d) \<Rightarrow> if d = 1 \<and> 0 \<le> n then Some (nat n) else None)
      | Num NegZero \<Rightarrow> Some 0
      | _ \<Rightarrow> None)"

definition parseTagsAt :: "BufferView \<Rightarrow> Options \<Rightarrow> tag_value \<Rightarrow> error + block" where
  "parseTagsAt v opts x =
     (case toIndex x of None \<Rightarrow> Inl NonIndexOffset | Some offset \<Rightarrow> parseTags v opts offset)"

section \<open>The block graph navigator\<close>

text \<open>
  The pointer tags of \<^verbatim>\<open>tags.mjs\<close> (the comments of lines 217, 225 and 233 give their
  codes) and the constants of lines 11, 12 and 297 to 300.
\<close>

definition TAG_IFD_EXIF :: nat where "TAG_IFD_EXIF = 0x8769"
definition TAG_IFD_GPS :: nat where "TAG_IFD_GPS = 0x8825"
definition TAG_IFD_INTEROP :: nat where "TAG_IFD_INTEROP = 0xA005"
definition GPS_LATREF :: nat where "GPS_LATREF = 0x0001"
definition GPS_LAT :: nat where "GPS_LAT = 0x0002"
definition GPS_LONREF :: nat where "GPS_LONREF = 0x0003"
definition GPS_LON :: nat where "GPS_LON = 0x0004"

definition blockKeys :: "string list" where
  "blockKeys = [''ifd0'', ''exif'', ''gps'', ''interop'', ''thumbnail'']"

datatype Output = Merged block | Grouped "(string \<times> block) list"

text \<open>The fields of a \<open>Tiff\<close> instance (\<open>tiff_le\<close> and \<open>tiff_output\<close> are \<open>this.le\<close> and
  \<open>this.output\<close>); \<open>None\<close> is \<open>undefined\<close>.\<close>

record Tiff =
  view :: BufferView
  options :: Options
  tiff_le :: "bool option"
  ifd0 :: "block option"
  exif :: "block option"
  gps :: "block option"
  interop :: "block option"
  thumbnail :: "block option"
  ifd0Offset :: "nat option"
  exifOffset :: "tag_value option"
  interopOffset :: "tag_value option"
  gpsOffset :: "tag_value option"
  ifd1Offset :: "nat option"
  thumbnailParsed :: bool
  tiff_output :: "Output option"

text \<open>
  The methods follow. \<open>canHandle\<close> (line 163) and \<open>extractThumbnail\<close> (line 257)
  take no part in the properties below and are left out.
\<close>

text \<open>\<open>parseHeader\<close> (lines 37 to 51).\<close>

definition parseHeader :: "Tiff \<Rightarrow> error + Tiff" where
  "parseHeader d =
     bindE (getUint16 (view d) 0) (\<lambda>byteOrder.
     bindE (if byteOrder = 0x4949 then Inr True
            else if byteOrder = 0x4D4D then Inr False
            else Inl MalformedHeader) (\<lambda>b.
     let d1 = d\<lparr>tiff_le := Some b, view := (view d)\<lparr>le := b\<rparr>\<rparr> in
     bindE (getUint16 (view d1) 2) (\<lambda>magic.
     if magic \<noteq> 0x002A then Inl MalformedHeader else Inr d1)))"

text \<open>\<open>parseIfd0Block\<close> (lines 192 to 214).\<close>

definition parseIfd0Block :: "Tiff \<Rightarrow> error + Tiff" where
  "parseIfd0Block d =
     (if ifd0 d \<noteq> None then Inr d
      else
        bindE (getUint32 (view d) 4) (\<lambda>off.
        let d1 = d\<lparr>ifd0Offset := Some off\<rparr> in
        if off < 8 then Inl MalformedHeader
        else
          bindE (parseTags (view d1) (options d1) off) (\<lambda>b.
          let d2 = d1\<lparr>ifd0 := Some b\<rparr> in
          if length b = 0 then Inr d2
          else
            let d3 = d2\<lparr>exifOffset := obj_get b (Tag TAG_IFD_EXIF),
                        interopOffset := obj_get b (Tag TAG_IFD_INTEROP),
                        gpsOffset := obj_get b (Tag TAG_IFD_GPS)\<rparr> in
            if sanitize (options d3) then
              Inr (d3\<lparr>ifd0 := Some (obj_delete (Tag TAG_IFD_GPS)
                                     (obj_delete (Tag TAG_IFD_INTEROP)
                                       (obj_delete (Tag TAG_IFD_EXIF) b)))\<rparr>)
            else Inr d3)))"

text \<open>\<open>parseExifBlock\<close> (lines 218 to 222) and \<open>parseGpsBlock\<close> (lines 226 to 230).\<close>

definition parseExifBlock :: "Tiff \<Rightarrow> error + Tiff" where
  "parseExifBlock d =
     (if exif d \<noteq> None then Inr d
      else case exifOffset d of
        None \<Rightarrow> Inr d
      | Some off \<Rightarrow> bindE (parseTagsAt (view d) (options d) off) (\<lambda>b. Inr (d\<lparr>exif := Some b\<rparr>)))"

definition parseGpsBlock :: "Tiff \<Rightarrow> error + Tiff" where
  "parseGpsBlock d =
     (if gps d \<noteq> None then Inr d
      else case gpsOffset d of
        None \<Rightarrow> Inr d
      | Some off \<Rightarrow> bindE (parseTagsAt (view d) (options d) off) (\<lambda>b. Inr (d\<lparr>gps := Some b\<rparr>)))"

text \<open>
  \<open>parseInteropBlock\<close> (lines 234 to 239). Line 236 is
  \<^verbatim>\<open>this.interopOffset = this.interopOffset || (this.exif && this.exif[TAG_IFD_INTEROP])\<close>.
\<close>

definition parseInteropBlock :: "Tiff \<Rightarrow> error + Tiff" where
  "parseInteropBlock d =
     (if interop d \<noteq> None then Inr d
      else
        let d1 = d\<lparr>interopOffset :=
                    (case interopOffset d of
                       Some x \<Rightarrow>
                         if truthy x then Some x
                         else (case exif d of None \<Rightarrow> None | Some e \<Rightarrow> obj_get e (Tag TAG_IFD_INTEROP))
                     | None \<Rightarrow>
                         (case exif d of None \<Rightarrow> None | Some e \<Rightarrow> obj_get e (Tag TAG_IFD_INTEROP)))\<rparr>
        in case interopOffset d1 of
          None \<Rightarrow> Inr d1
        | Some off \<Rightarrow>
            bindE (parseTagsAt (view d1) (options d1) off) (\<lambda>b. Inr (d1\<lparr>interop := Some b\<rparr>)))"

text \<open>
  \<open>parseThumbnailBlock\<close> (lines 243 to 254). The result is paired with what the method
  returns: \<open>None\<close> for \<open>undefined\<close>, \<open>Some False\<close> and \<open>Some True\<close>.
\<close>

definition parseThumbnailBlock :: "bool \<Rightarrow> Tiff \<Rightarrow> error + (bool option \<times> Tiff)" where
  "parseThumbnailBlock force d =
     (if thumbnail d \<noteq> None \<or> thumbnailParsed d then Inr (None, d)
      else if mergeOutput (options d) \<and> \<not> force then Inr (Some False, d)
      else case ifd0Offset d of
        None \<Rightarrow> Inl NonIndexOffset
      | Some off0 \<Rightarrow>
          bindE (getUint16 (view d) off0) (\<lambda>ifd0Entries.
          let temp = off0 + 2 + ifd0Entries * 12 in
          bindE (getUint32 (view d) temp) (\<lambda>off1.
          let d1 = d\<lparr>ifd1Offset := Some off1\<rparr> in
          if off1 = 0 then Inr (Some False, d1)
          else
            bindE (parseTags (view d1) (options d1) off1) (\<lambda>b.
            Inr (Some True, d1\<lparr>thumbnail := Some b, thumbnailParsed := True\<rparr>)))))"

section \<open>Post-processing and the whole parse\<close>

text \<open>
  \<open>postProcess\<close> calls three things of files that are not under src/: the function
  \<open>translateValue\<close> and the function \<open>ConvertDMSToDD\<close> of \<^verbatim>\<open>tiff-tags.mjs\<close>, and the tag
  dictionaries \<open>tags.tiff\<close> of \<^verbatim>\<open>tags.mjs\<close>. They are parameters of the model.
  \<open>ConvertDMSToDD\<close> receives the spread components and the reference tag's value.
\<close>

record Externals =
  translateValue :: "key \<Rightarrow> tag_value \<Rightarrow> tag_value"
  ConvertDMSToDD :: "tag_value list \<Rightarrow> tag_value option \<Rightarrow> tag_value"
  tags_tiff :: "string \<Rightarrow> key \<Rightarrow> string option"

text \<open>
  The spread \<open>...x\<close> of a decoded value: the elements of an array or of a byte slice,
  the characters of a string; a number is not iterable.
\<close>

fun spread :: "tag_value \<Rightarrow> error + tag_value list" where
  "spread (Str s) = Inr (map (\<lambda>c. Str [c]) s)"
| "spread (Bytes bs) = Inr (map (\<lambda>b. Num (Finite (of_nat (unat b)))) bs)"
| "spread (Num n) = Inl TypeError"
| "spread (Arr xs) = Inr (map Num xs)"

text \<open>Lines 276 to 279, on the \<open>gps\<close> object.\<close>

definition refineGps :: "Externals \<Rightarrow> block \<Rightarrow> error + block" where
  "refineGps ext g =
     (case (obj_get g (Tag GPS_LAT), obj_get g (Tag GPS_LON)) of
        (Some gpsLat, Some gpsLon) \<Rightarrow>
          if truthy gpsLat \<and> truthy gpsLon then
            bindE (spread gpsLat) (\<lambda>lat.
            let g1 = obj_set (Name ''latitude'')
                       (ConvertDMSToDD ext lat (obj_get g (Tag GPS_LATREF))) g in
            bindE (spread gpsLon) (\<lambda>lon.
            Inr (obj_set (Name ''longitude'')
                   (ConvertDMSToDD ext lon (obj_get g1 (Tag GPS_LONREF))) g1)))
          else Inr g
      | _ \<Rightarrow> Inr g)"

text \<open>Lines 285 to 290, on the entries of one block.\<close>

definition translateBlock :: "Externals \<Rightarrow> Options \<Rightarrow> string \<Rightarrow> block \<Rightarrow> block" where
  "translateBlock ext opts blockKey rawTags =
     (let entries = rawTags;
          entries1 = (if reviveValues opts
                      then map (\<lambda>(tag, val). (tag, translateValue ext tag val)) entries
                      else entries);
          entries2 = (if translateTags opts
                      then map (\<lambda>(tag, val).
                             ((case tags_tiff ext blockKey tag of
                                 None \<Rightarrow> tag
                               | Some name \<Rightarrow> if name \<noteq> [] then Name name else tag), val)) entries1
                      else entries1)
      in Object_fromEntries entries2)"

definition getBlock :: "string \<Rightarrow> Tiff \<Rightarrow> block option" where
  "getBlock blockKey d =
     (if blockKey = ''ifd0'' then ifd0 d
      else if blockKey = ''exif'' then exif d
      else if blockKey = ''gps'' then gps d
      else if blockKey = ''interop'' then interop d
      else if blockKey = ''thumbnail'' then thumbnail d
      else None)"

definition setBlock :: "string \<Rightarrow> block \<Rightarrow> Tiff \<Rightarrow> Tiff" where
  "setBlock blockKey b d =
     (if blockKey = ''ifd0'' then d\<lparr>ifd0 := Some b\<rparr>
      else if blockKey = ''exif'' then d\<lparr>exif := Some b\<rparr>
      else if blockKey = ''gps'' then d\<lparr>gps := Some b\<rparr>
      else if blockKey = ''interop'' then d\<lparr>interop := Some b\<rparr>
      else if blockKey = ''thumbnail'' then d\<lparr>thumbnail := Some b\<rparr>
      else d)"

text \<open>\<open>postProcess\<close> (lines 272 to 293).\<close>

definition postProcess :: "Externals \<Rightarrow> Tiff \<Rightarrow> error + Tiff" where
  "postProcess ext d =
     (if \<not> opt_postProcess (options d) then Inr d
      else
        bindE (case gps d of
                 None \<Rightarrow> Inr d
               | Some g \<Rightarrow> bindE (refineGps ext g) (\<lambda>g'. Inr (d\<lparr>gps := Some g'\<rparr>))) (\<lambda>d1.
        if translateTags (options d1) \<or> reviveValues (options d1) then
          Inr (fold (\<lambda>blockKey d'.
                 case getBlock blockKey d' of
                   None \<Rightarrow> d'
                 | Some rawTags \<Rightarrow>
                     setBlock blockKey (translateBlock ext (options d') blockKey rawTags) d')
               blockKeys d1)
        else Inr d1))"

text \<open>
  \<open>parse\<close> (lines 170 to 190). The method returns \<open>this.output\<close>: the field
  \<open>tiff_output\<close> of the state returned here.
\<close>

definition buildOutput :: "Tiff \<Rightarrow> Output" where
  "buildOutput d =
     (if mergeOutput (options d) then
        Merged (Object_assign [] [ifd0 d, exif d, gps d, interop d, thumbnail d])
      else
        Grouped (fold (\<lambda>blockKey out.
                   case getBlock blockKey d of
                     None \<Rightarrow> out
                   | Some blockOutput \<Rightarrow> out @ [(blockKey, blockOutput)])
                 blockKeys []))"

definition parse :: "Externals \<Rightarrow> Tiff \<Rightarrow> error + Tiff" where
  "parse ext d =
     bindE (parseHeader d) (\<lambda>d1.
     bindE (parseIfd0Block d1) (\<lambda>d2.
     bindE (if opt_exif (options d2) then parseExifBlock d2 else Inr d2) (\<lambda>d3.
     bindE (if opt_gps (options d3) then parseGpsBlock d3 else Inr d3) (\<lambda>d4.
     bindE (if opt_interop (options d4) then parseInteropBlock d4 else Inr d4) (\<lambda>d5.
     bindE (if opt_thumbnail (options d5)
            then bindE (parseThumbnailBlock False d5) (\<lambda>r. Inr (snd r))
            else Inr d5) (\<lambda>d6.
     bindE (postProcess ext d6) (\<lambda>d7.
     Inr (d7\<lparr>tiff_output := Some (buildOutput d7)\<rparr>))))))))"

text \<open>
  Modelled from the spec: the decoder in the state \<open>Unparsed\<close> of section 4.4, every
  field that this file assigns still \<open>undefined\<close> (the constructor is in
  \<^verbatim>\<open>core.mjs\<close>, not under src/).
\<close>

definition newTiff :: "BufferView \<Rightarrow> Options \<Rightarrow> Tiff" where
  "newTiff v opts =
     \<lparr>view = v, options = opts, tiff_le = None, ifd0 = None, exif = None, gps = None,
      interop = None, thumbnail = None, ifd0Offset = None, exifOffset = None,
      interopOffset = None, gpsOffset = None, ifd1Offset = None, thumbnailParsed = False,
      tiff_output = None\<rparr>"

section \<open>The values of an entry, as the specification describes them\<close>

text \<open>
  The first error of a list of results, or all their values.
\<close>

fun collect :: "(error + 'a) list \<Rightarrow> error + 'a list" where
  "collect [] = Inr []"
| "collect (r # rs) = bindE r (\<lambda>x. bindE (collect rs) (\<lambda>xs. Inr (x # xs)))"


text \<open>
  The quotient as a floating value: \<open>nearest_double q m e\<close> says that \<open>m * 2 powi e\<close> is the
  double nearest to \<open>q\<close>. It is a double, a significand of at most 53 bits at an exponent
  in the range of the format; its unit \<open>2 powi e\<close> is the distance of the doubles around
  \<open>q\<close>, which lies between \<open>2 powi (e + 52)\<close> and \<open>2 powi (e + 53)\<close>; and it is nearer to
  \<open>q\<close> than half that unit, so that every other double is further away.
\<close>

definition nearest_double :: "rat \<Rightarrow> int \<Rightarrow> int \<Rightarrow> bool" where
  "nearest_double q m e \<longleftrightarrow>
     - 1074 \<le> e \<and> e \<le> 971 \<and> \<bar>m\<bar> \<le> 2 ^ 53 \<and>
     2 powi (e + 52) \<le> \<bar>q\<bar> \<and> \<bar>q\<bar> < 2 powi (e + 53) \<and>
     2 * \<bar>of_int m * 2 powi e - q\<bar> < 2 powi e"

section \<open>Notions for comparing the two output modes\<close>

text \<open>The same decoder with the option \<open>mergeOutput\<close> set to \<open>m\<close>.\<close>

definition setMergeOutput :: "bool \<Rightarrow> Tiff \<Rightarrow> Tiff" where
  "setMergeOutput m d = d\<lparr>options := (options d)\<lparr>mergeOutput := m\<rparr>\<rparr>"

text \<open>The lookup of a block that may be \<open>undefined\<close>: no key when it is.\<close>

definition blockMap :: "block option \<Rightarrow> key \<Rightarrow> tag_value option" where
  "blockMap b = (case b of None \<Rightarrow> Map.empty | Some entries \<Rightarrow> map_of entries)"

text \<open>
  A JavaScript object has each key once. The blocks of a decoder are such objects: the
  invariant below holds of a new decoder and every operation keeps it.
\<close>

definition distinct_block :: "block option \<Rightarrow> bool" where
  "distinct_block b = (case b of None \<Rightarrow> True | Some entries \<Rightarrow> distinct (map fst entries))"

definition blocks_distinct :: "Tiff \<Rightarrow> bool" where
  "blocks_distinct d \<longleftrightarrow>
     distinct_block (ifd0 d) \<and> distinct_block (exif d) \<and> distinct_block (gps d) \<and>
     distinct_block (interop d) \<and> distinct_block (thumbnail d)"

text \<open>The first five steps of \<open>parse\<close> (lines 171 to 175).\<close>

definition parseBlocks :: "Tiff \<Rightarrow> error + Tiff" where
  "parseBlocks d =
     bindE (parseHeader d) (\<lambda>d1.
     bindE (parseIfd0Block d1) (\<lambda>d2.
     bindE (if opt_exif (options d2) then parseExifBlock d2 else Inr d2) (\<lambda>d3.
     bindE (if opt_gps (options d3) then parseGpsBlock d3 else Inr d3) (\<lambda>d4.
     if opt_interop (options d4) then parseInteropBlock d4 else Inr d4))))"

text \<open>
  What those steps leave alone: the thumbnail fields and the options; and they keep the
  invariant.
\<close>

definition preserves :: "Tiff \<Rightarrow> Tiff \<Rightarrow> bool" where
  "preserves d r \<longleftrightarrow>
     thumbnail r = thumbnail d \<and> thumbnailParsed r = thumbnailParsed d \<and>
     options r = options d \<and> (blocks_distinct d \<longrightarrow> blocks_distinct r)"

section \<open>Concrete inputs\<close>

text \<open>
  Directory entries and whole buffers, little-endian unless said otherwise, on which the
  theorems below are evaluated. An entry is twelve bytes: tag, type, count, and the
  value or its offset.
\<close>

text \<open>Type 14 with count 0, with count 1 and a far offset, and with count 1.\<close>

definition entry_unknown_empty :: BufferView where
  "entry_unknown_empty =
     \<lparr>bytes = [0, 1, 14, 0, 0, 0, 0, 0, 0, 0, 0, 0], le = True, buffer_byteLength = 12\<rparr>"

definition entry_unknown_far :: BufferView where
  "entry_unknown_far =
     \<lparr>bytes = [0, 1, 14, 0, 1, 0, 0, 0, 0xFF, 0, 0, 0], le = True, buffer_byteLength = 12\<rparr>"

definition entry_unknown_one :: BufferView where
  "entry_unknown_one =
     \<lparr>bytes = [0, 1, 14, 0, 1, 0, 0, 0, 0, 0, 0, 0], le = True, buffer_byteLength = 12\<rparr>"

text \<open>
  An ASCII entry of eight bytes stored at offset 12: \<open>Ex\<close>, a NUL, \<open>if\<close> and three
  padding NULs.
\<close>

definition entry_ascii :: BufferView where
  "entry_ascii =
     \<lparr>bytes = [0x0F, 1, 2, 0, 8, 0, 0, 0, 12, 0, 0, 0, 0x45, 0x78, 0, 0x69, 0x66, 0, 0, 0],
      le = True, buffer_byteLength = 20\<rparr>"

text \<open>
  Two rationals that no double holds exactly, 1/3 at offset 0 and, read as signed, -1/3 at
  offset 8, and a signed rational with numerator zero, 0/-3 at offset 16.
\<close>

definition rational_third :: BufferView where
  "rational_third =
     \<lparr>bytes = [1, 0, 0, 0, 3, 0, 0, 0, 0xFF, 0xFF, 0xFF, 0xFF, 3, 0, 0, 0,
               0, 0, 0, 0, 0xFD, 0xFF, 0xFF, 0xFF],
      le = True, buffer_byteLength = 24\<rparr>"

text \<open>Two rationals with denominator zero: 5/0 at offset 0 and, read as signed, -5/0 at offset 8.\<close>

definition rational_zero_denominator :: BufferView where
  "rational_zero_denominator =
     \<lparr>bytes = [5, 0, 0, 0, 0, 0, 0, 0, 0xFB, 0xFF, 0xFF, 0xFF, 0, 0, 0, 0], le = True,
      buffer_byteLength = 16\<rparr>"



definition entry_far :: BufferView where
  "entry_far =
     \<lparr>bytes = [0, 1, 3, 0, 3, 0, 0, 0, 19, 0, 0, 0, 1, 0, 2, 0, 3, 0], le = True,
      buffer_byteLength = 18\<rparr>"

text \<open>Options that decode every block into grouped output, with sanitizing on.\<close>

definition options_grouped :: Options where
  "options_grouped =
     \<lparr>pickTags = [], skipTags = [], opt_exif = True, opt_gps = True, opt_interop = True,
      opt_thumbnail = True, mergeOutput = False, sanitize = True, opt_postProcess = False,
      translateTags = False, reviveValues = False\<rparr>"

text \<open>
  A TIFF of 26 bytes: the header, IFD0 at offset 8 with the single entry
  \<open>0x0100 = 640\<close>, and a pointer to IFD1 of 64. \<open>tiff_far_ifd1\<close> is the decoder after
  \<open>parseHeader\<close> and \<open>parseIfd0Block\<close>.
\<close>

definition buffer_far_ifd1 :: BufferView where
  "buffer_far_ifd1 =
     \<lparr>bytes = [0x49, 0x49, 0x2A, 0, 8, 0, 0, 0,
               1, 0,
               0, 1, 4, 0, 1, 0, 0, 0, 0x80, 2, 0, 0,
               64, 0, 0, 0],
      le = False, buffer_byteLength = 26\<rparr>"

definition tiff_far_ifd1 :: Tiff where
  "tiff_far_ifd1 =
     (newTiff (buffer_far_ifd1\<lparr>le := True\<rparr>) options_grouped)
       \<lparr>tiff_le := Some True, ifd0 := Some [(Tag 256, Num (Finite 640))], ifd0Offset := Some 8\<rparr>"

text \<open>
  Externals that leave values and tag keys as they are, and four headers: a byte order
  marker that is neither \<open>II\<close> nor \<open>MM\<close>, a magic constant read in the wrong byte
  order, an IFD0 offset of 4, and a well-formed big-endian header with an empty IFD0.
\<close>

definition externals_plain :: Externals where
  "externals_plain =
     \<lparr>translateValue = (\<lambda>tag val. val), ConvertDMSToDD = (\<lambda>components ref. Num NaN),
      tags_tiff = (\<lambda>blockKey tag. None)\<rparr>"

definition buffer_bad_order :: BufferView where
  "buffer_bad_order =
     \<lparr>bytes = [0x49, 0x4D, 0x2A, 0, 8, 0, 0, 0, 0, 0, 0, 0, 0, 0], le = False,
      buffer_byteLength = 14\<rparr>"

definition buffer_bad_magic :: BufferView where
  "buffer_bad_magic =
     \<lparr>bytes = [0x4D, 0x4D, 0x2A, 0, 0, 0, 0, 8, 0, 0, 0, 0, 0, 0], le = False,
      buffer_byteLength = 14\<rparr>"

definition buffer_low_ifd0 :: BufferView where
  "buffer_low_ifd0 =
     \<lparr>bytes = [0x49, 0x49, 0x2A, 0, 4, 0, 0, 0, 0, 0, 0, 0, 0, 0], le = False,
      buffer_byteLength = 14\<rparr>"

definition buffer_big_endian :: BufferView where
  "buffer_big_endian =
     \<lparr>bytes = [0x4D, 0x4D, 0, 0x2A, 0, 0, 0, 8, 0, 0, 0, 0, 0, 0], le = True,
      buffer_byteLength = 14\<rparr>"

text \<open>
  A TIFF of 146 bytes with all five directories. IFD0 (offset 8) holds \<open>0x0100 = 640\<close>
  and the three pointer tags: EXIF at 62, GPS at 92, and an Interop pointer of 0. The EXIF
  directory holds \<open>0x0100 = 7\<close> and the Interop pointer 110; GPS holds \<open>0x0001 = N\<close>,
  Interop holds \<open>0x0001 = R98\<close>, and IFD1 (at 128, the pointer that follows IFD0) holds
  \<open>0x0103 = 6\<close>. The states are the decoder after each step of \<open>parse\<close>.
\<close>

definition buffer_sample :: BufferView where
  "buffer_sample =
     \<lparr>bytes = [0x49, 0x49, 0x2A, 0, 8, 0, 0, 0,
               4, 0,
               0x00, 0x01, 4, 0, 1, 0, 0, 0, 0x80, 0x02, 0, 0,
               0x69, 0x87, 4, 0, 1, 0, 0, 0, 62, 0, 0, 0,
               0x25, 0x88, 4, 0, 1, 0, 0, 0, 92, 0, 0, 0,
               0x05, 0xA0, 4, 0, 1, 0, 0, 0, 0, 0, 0, 0,
               128, 0, 0, 0,
               2, 0,
               0x00, 0x01, 3, 0, 1, 0, 0, 0, 7, 0, 0, 0,
               0x05, 0xA0, 4, 0, 1, 0, 0, 0, 110, 0, 0, 0,
               0, 0, 0, 0,
               1, 0,
               0x01, 0x00, 2, 0, 2, 0, 0, 0, 0x4E, 0, 0, 0,
               0, 0, 0, 0,
               1, 0,
               0x01, 0x00, 2, 0, 4, 0, 0, 0, 0x52, 0x39, 0x38, 0,
               0, 0, 0, 0,
               1, 0,
               0x03, 0x01, 3, 0, 1, 0, 0, 0, 6, 0, 0, 0,
               0, 0, 0, 0],
      le = False, buffer_byteLength = 146\<rparr>"

definition tiff_sample_header :: Tiff where
  "tiff_sample_header =
     (newTiff (buffer_sample\<lparr>le := True\<rparr>) options_grouped)\<lparr>tiff_le := Some True\<rparr>"

definition tiff_sample_ifd0 :: Tiff where
  "tiff_sample_ifd0 =
     tiff_sample_header
       \<lparr>ifd0 := Some [(Tag 0x0100, Num (Finite 640))], ifd0Offset := Some 8,
        exifOffset := Some (Num (Finite 62)), interopOffset := Some (Num (Finite 0)),
        gpsOffset := Some (Num (Finite 92))\<rparr>"

definition tiff_sample_gps :: Tiff where
  "tiff_sample_gps =
     tiff_sample_ifd0
       \<lparr>exif := Some [(Tag 0x0100, Num (Finite 7)), (Tag 0xA005, Num (Finite 110))],
        gps := Some [(Tag 0x0001, Str ''N'')]\<rparr>"

definition tiff_sample_interop :: Tiff where
  "tiff_sample_interop =
     tiff_sample_gps
       \<lparr>interop := Some [(Tag 0x0001, Str ''R98'')], interopOffset := Some (Num (Finite 110))\<rparr>"

definition tiff_sample_thumbnail :: Tiff where
  "tiff_sample_thumbnail =
     tiff_sample_interop
       \<lparr>thumbnail := Some [(Tag 0x0103, Num (Finite 6))], ifd1Offset := Some 128,
        thumbnailParsed := True\<rparr>"

text \<open>
  The sample TIFF after a whole \<open>parse\<close>, in grouped and in merged mode, and the TIFF
  with the far IFD1 pointer after a \<open>parse\<close> in merged mode.
\<close>

definition tiff_sample_grouped :: Tiff where
  "tiff_sample_grouped =
     tiff_sample_thumbnail
       \<lparr>tiff_output := Some (Grouped
          [(''ifd0'', [(Tag 0x0100, Num (Finite 640))]),
           (''exif'', [(Tag 0x0100, Num (Finite 7)), (Tag 0xA005, Num (Finite 110))]),
           (''gps'', [(Tag 0x0001, Str ''N'')]),
           (''interop'', [(Tag 0x0001, Str ''R98'')]),
           (''thumbnail'', [(Tag 0x0103, Num (Finite 6))])])\<rparr>"

definition tiff_sample_merged :: Tiff where
  "tiff_sample_merged =
     tiff_sample_interop
       \<lparr>options := options_grouped\<lparr>mergeOutput := True\<rparr>,
        tiff_output := Some (Merged
          [(Tag 0x0001, Str ''R98''), (Tag 0x0100, Num (Finite 7)),
           (Tag 0xA005, Num (Finite 110))])\<rparr>"

definition tiff_far_merged :: Tiff where
  "tiff_far_merged =
     tiff_far_ifd1
       \<lparr>options := options_grouped\<lparr>mergeOutput := True\<rparr>,
        tiff_output := Some (Merged [(Tag 0x0100, Num (Finite 640))])\<rparr>"

section \<open>Basic lemmas\<close>

text \<open>The loops are unfolded on demand only.\<close>

declare stripNul.simps [simp del] parseTagArray.simps [simp del] parseTagsLoop.simps [simp del]

lemma bindE_Inl [simp]: "bindE (Inl e) f = Inl e"
  by (simp add: bindE_def)

lemma bindE_Inr [simp]: "bindE (Inr x) f = f x"
  by (simp add: bindE_def)

text \<open>The definitions that evaluate the reader and the decoders on a concrete buffer.\<close>

lemmas reader_defs = getUint8_def getUint16_def getUint32_def getInt8_def getInt16_def
  getInt32_def getUint_def readBytes_def toSigned_def getFloat_def getDouble_def slice_def

lemmas decode_defs = parseTag_def SIZE_LOOKUP_def parseTagValue_def parseTags_def
  parseTagsLoop.simps parseTagArray.simps toIndex_def parseTagsAt_def obj_set_def

lemmas block_defs = parseHeader_def parseIfd0Block_def parseExifBlock_def parseGpsBlock_def
  parseInteropBlock_def parseThumbnailBlock_def newTiff_def obj_get_def obj_delete_def
  TAG_IFD_EXIF_def TAG_IFD_GPS_def TAG_IFD_INTEROP_def

text \<open>
  The values of some bit patterns: 26 as a FLOAT and as a DOUBLE, the FLOAT nearest to
  1/3, the negative zero, the smallest positive FLOAT, an infinity and a NaN. A pointer
  tag of type FLOAT whose value is 26 points to the offset 26.
\<close>

lemma ieee_value_examples:
  "ieee_value 8 23 0x41D00000 = Finite 26"
  "ieee_value 11 52 0x403A000000000000 = Finite 26"
  "ieee_value 8 23 0x3EAAAAAB = Finite (11184811 / 33554432)"
  "ieee_value 8 23 0x80000000 = NegZero"
  "ieee_value 8 23 0x00000001 = Finite (1 / 2 ^ 149)"
  "ieee_value 8 23 0xFF800000 = NegInfinity"
  "ieee_value 11 52 0x7FF8000000000000 = NaN"
  by (simp_all add: ieee_value_def Let_def power_int_def power_one_over)

lemma toIndex_float: "toIndex (Num (ieee_value 8 23 0x41D00000)) = Some 26"
  by (simp add: ieee_value_examples toIndex_def)

lemma SIZE_LOOKUP_None: "SIZE_LOOKUP t = None \<longleftrightarrow> t < 1 \<or> 13 < t"
  unfolding SIZE_LOOKUP_def by (simp, presburger)

lemma parseTagValue_unknown:
  "t < 1 \<or> 13 < t \<Longrightarrow> parseTagValue v t off = Inl UnknownFieldType"
  by (auto simp: parseTagValue_def)

text \<open>\<open>parseTag\<close> once the type and the count of the entry have been read.\<close>

lemma parseTag_fields:
  assumes "getUint16 v (offset + 2) = Inr type"
    and "getUint32 v (offset + 4) = Inr valuesCount"
  shows "parseTag v offset =
     bindE (if (case SIZE_LOOKUP type of None \<Rightarrow> False | Some w \<Rightarrow> w * valuesCount \<le> 4)
            then Inr (offset + 8)
            else getUint32 v (offset + 8)) (\<lambda>valueOffset.
     if buffer_byteLength v < valueOffset then Inl OffsetOutOfBounds
     else if type = 2 then
       bindE (getString v valueOffset valuesCount) (\<lambda>s. Inr (Str (stripNul s)))
     else if type = 7 then
       bindE (slice v valueOffset (valueOffset + valuesCount)) (\<lambda>b. Inr (Bytes b))
     else if valuesCount = 1 then
       bindE (parseTagValue v type valueOffset) (\<lambda>x. Inr (Num x))
     else
       bindE (parseTagArray v type (case SIZE_LOOKUP type of None \<Rightarrow> 0 | Some w \<Rightarrow> w)
                valuesCount 0 valueOffset [])
         (\<lambda>res. Inr (Arr res)))"
  by (simp only: parseTag_def assms bindE_Inr Let_def)

section \<open>Unknown field types\<close>

text \<open>
  C3, as the specification states it: an entry whose type code is outside 1 to 13 fails
  with \<open>UnknownFieldType\<close> at the width lookup, whatever its count and its value or
  offset field. The code does not: the lookup of line 72 checks nothing. With count 0
  the entry decodes to the empty array, and with an offset field beyond the buffer the
  bounds check of line 78 fails first.
\<close>

theorem unknown_type_counterexample:
  "getUint16 entry_unknown_empty 2 = Inr 14 \<and>
   parseTag entry_unknown_empty 0 = Inr (Arr []) \<and>
   getUint16 entry_unknown_far 2 = Inr 14 \<and>
   parseTag entry_unknown_far 0 = Inl OffsetOutOfBounds"
  by code_simp

text \<open>
  C3, amended: an entry whose type code is outside 1 to 13 and whose count is not zero
  never decodes to a value. It is treated as stored out of line: the 32-bit value at
  entry+8 is read and checked against the buffer length first (\<open>OffsetOutOfBounds\<close> when
  it exceeds it), and otherwise the scalar decoder fails with \<open>UnknownFieldType\<close>, before
  any byte at that offset is read.
\<close>

theorem unknown_type_entry:
  assumes "getUint16 v (offset + 2) = Inr type"
    and "getUint32 v (offset + 4) = Inr valuesCount"
    and "type < 1 \<or> 13 < type"
    and "valuesCount \<noteq> 0"
  shows "parseTag v offset =
           bindE (getUint32 v (offset + 8)) (\<lambda>valueOffset.
             if buffer_byteLength v < valueOffset then Inl OffsetOutOfBounds
             else Inl UnknownFieldType)"
proof -
  have size: "SIZE_LOOKUP type = None"
    using assms(3) by (simp add: SIZE_LOOKUP_None)
  have scalar: "\<And>off. parseTagValue v type off = Inl UnknownFieldType"
    using assms(3) by (rule parseTagValue_unknown)
  have loop: "\<And>off. parseTagArray v type 0 valuesCount 0 off [] = Inl UnknownFieldType"
    using assms(4) by (subst parseTagArray.simps) (simp add: scalar)
  have "type \<noteq> 2" "type \<noteq> 7"
    using assms(3) by auto
  then show ?thesis
    unfolding parseTag_fields [OF assms(1,2)]
    by (cases "getUint32 v (offset + 8)") (simp_all add: size scalar loop assms(4))
qed

theorem unknown_type_entry_witness:
  "getUint16 entry_unknown_one 2 = Inr 14 \<and> getUint32 entry_unknown_one 4 = Inr 1 \<and>
   parseTag entry_unknown_one 0 = Inl UnknownFieldType"
proof (intro conjI)
  have t: "getUint16 entry_unknown_one (0 + 2) = Inr 14" by code_simp
  have c: "getUint32 entry_unknown_one (0 + 4) = Inr 1" by code_simp
  have o: "getUint32 entry_unknown_one 8 = Inr 0" by code_simp
  show "parseTag entry_unknown_one 0 = Inl UnknownFieldType"
    using unknown_type_entry [OF t c] by (simp add: o)
qed code_simp+

section \<open>ASCII values\<close>

text \<open>What the loop of line 85 leaves: the string without its trailing NULs, all of them.\<close>

lemma stripNul_spec:
  "\<exists>n. s = stripNul s @ replicate n (CHR 0x00) \<and>
       (stripNul s = [] \<or> last (stripNul s) \<noteq> CHR 0x00)"
proof (induction s rule: stripNul.induct)
  case (1 s)
  show ?case
  proof (cases "s \<noteq> [] \<and> last s = CHR 0x00")
    case True
    then have step: "stripNul s = stripNul (butlast s)"
      by (subst stripNul.simps) simp
    from 1 [OF True] obtain n where
      n: "butlast s = stripNul (butlast s) @ replicate n (CHR 0x00)"
      and l: "stripNul (butlast s) = [] \<or> last (stripNul (butlast s)) \<noteq> CHR 0x00"
      by blast
    from True have "s = butlast s @ [CHR 0x00]"
      by (metis append_butlast_last_id)
    with n have "s = stripNul (butlast s) @ replicate (Suc n) (CHR 0x00)"
      by (metis append.assoc replicate_append_same replicate_Suc)
    with l show ?thesis
      unfolding step by blast
  next
    case False
    then have "stripNul s = s"
      by (subst stripNul.simps) (simp only: if_False)
    with False show ?thesis
      by (intro exI [of _ 0]) (cases "s = []", simp_all)
  qed
qed

lemma getString_length: "getString v off n = Inr s \<Longrightarrow> length s = n"
  by (auto simp: getString_def readBytes_def split: if_splits)

text \<open>
  C8: an ASCII (type 2) entry decodes to one string, never an array: the \<open>count\<close> bytes
  at the value's place read as text, without the trailing NUL bytes. All of them are
  removed: the result \<open>r\<close> is the text \<open>s\<close> less a run of NULs at its end, and \<open>r\<close> itself
  does not end in NUL.
\<close>

theorem ascii_entry:
  assumes "getUint16 v (offset + 2) = Inr 2"
    and "getUint32 v (offset + 4) = Inr valuesCount"
    and "(if valuesCount \<le> 4 then Inr (offset + 8) else getUint32 v (offset + 8)) =
           Inr valueOffset"
    and "valueOffset \<le> buffer_byteLength v"
    and "getString v valueOffset valuesCount = Inr s"
  shows "\<exists>r n. parseTag v offset = Inr (Str r) \<and> length s = valuesCount \<and>
           s = r @ replicate n (CHR 0x00) \<and> (r = [] \<or> last r \<noteq> CHR 0x00)"
proof -
  have size: "SIZE_LOOKUP 2 = Some 1"
    by (simp add: SIZE_LOOKUP_def)
  have "parseTag v offset = Inr (Str (stripNul s))"
    unfolding parseTag_fields [OF assms(1,2)] using assms(3,4,5)
    by (simp add: size)
  with stripNul_spec [of s] getString_length [OF assms(5)] show ?thesis
    by blast
qed

theorem ascii_entry_witness:
  "getUint16 entry_ascii 2 = Inr 2 \<and> getUint32 entry_ascii 4 = Inr 8 \<and>
   getString entry_ascii 12 8 =
     Inr [CHR ''E'', CHR ''x'', CHR 0x00, CHR ''i'', CHR ''f'', CHR 0x00, CHR 0x00, CHR 0x00] \<and>
   parseTag entry_ascii 0 = Inr (Str [CHR ''E'', CHR ''x'', CHR 0x00, CHR ''i'', CHR ''f'']) \<and>
   (\<exists>r n. parseTag entry_ascii 0 = Inr (Str r) \<and>
      length [CHR ''E'', CHR ''x'', CHR 0x00, CHR ''i'', CHR ''f'', CHR 0x00, CHR 0x00, CHR 0x00] = 8 \<and>
      [CHR ''E'', CHR ''x'', CHR 0x00, CHR ''i'', CHR ''f'', CHR 0x00, CHR 0x00, CHR 0x00] =
        r @ replicate n (CHR 0x00) \<and>
      (r = [] \<or> last r \<noteq> CHR 0x00))"
proof (intro conjI)
  have t: "getUint16 entry_ascii (0 + 2) = Inr 2" by code_simp
  have c: "getUint32 entry_ascii (0 + 4) = Inr 8" by code_simp
  have o: "(if (8::nat) \<le> 4 then Inr (0 + 8) else getUint32 entry_ascii (0 + 8)) = Inr 12"
    by code_simp
  have b: "12 \<le> buffer_byteLength entry_ascii" by code_simp
  have s: "getString entry_ascii 12 8 =
     Inr [CHR ''E'', CHR ''x'', CHR 0x00, CHR ''i'', CHR ''f'', CHR 0x00, CHR 0x00, CHR 0x00]"
    by code_simp
  show "\<exists>r n. parseTag entry_ascii 0 = Inr (Str r) \<and>
      length [CHR ''E'', CHR ''x'', CHR 0x00, CHR ''i'', CHR ''f'', CHR 0x00, CHR 0x00, CHR 0x00] = 8 \<and>
      [CHR ''E'', CHR ''x'', CHR 0x00, CHR ''i'', CHR ''f'', CHR 0x00, CHR 0x00, CHR 0x00] =
        r @ replicate n (CHR 0x00) \<and>
      (r = [] \<or> last r \<noteq> CHR 0x00)"
    by (rule ascii_entry [OF t c o b s])
qed code_simp+

section \<open>Rational values\<close>

text \<open>Rounding to an integer: the error is at most a half, and a tie goes to the even integer.\<close>

lemma roundTiesToEven_error: "\<bar>of_int (roundTiesToEven y) - y\<bar> \<le> 1 / 2"
proof -
  have "of_int \<lfloor>y\<rfloor> \<le> y" "y < of_int \<lfloor>y\<rfloor> + 1"
    by linarith+
  then show ?thesis
    by (auto simp: roundTiesToEven_def Let_def)
qed

lemma roundTiesToEven_tie:
  assumes "\<bar>of_int (roundTiesToEven y) - y\<bar> = 1 / 2"
  shows "even (roundTiesToEven y)"
proof -
  have "of_int \<lfloor>y\<rfloor> \<le> y" "y < of_int \<lfloor>y\<rfloor> + 1"
    by linarith+
  with assms show ?thesis
    by (auto simp: roundTiesToEven_def Let_def split: if_splits)
qed

lemma roundTiesToEven_lower: "of_int a \<le> y \<Longrightarrow> a \<le> roundTiesToEven y"
proof -
  assume "of_int a \<le> y"
  then have "a \<le> \<lfloor>y\<rfloor>" by (simp add: le_floor_iff)
  then show ?thesis
    by (auto simp: roundTiesToEven_def Let_def)
qed

lemma roundTiesToEven_upper: "y \<le> of_int b \<Longrightarrow> roundTiesToEven y \<le> b"
proof -
  assume le: "y \<le> of_int b"
  show ?thesis
  proof (cases "y = of_int b")
    case True
    then show ?thesis by (simp add: roundTiesToEven_def Let_def)
  next
    case False
    with le have "y < of_int b" by simp
    then have "\<lfloor>y\<rfloor> < b" by (simp add: floor_less_iff)
    then show ?thesis
      by (auto simp: roundTiesToEven_def Let_def)
  qed
qed

lemma binade_bounds:
  assumes "0 < q"
  shows "2 powi binade q \<le> q \<and> q < 2 powi (binade q + 1)"
proof -
  obtain n d where nd: "quotient_of q = (n, d)" by (cases "quotient_of q")
  then have d: "0 < d" and q: "q = of_int n / of_int d"
    by (simp_all add: quotient_of_denom_pos quotient_of_div)
  with assms have n: "0 < n"
    by (simp add: zero_less_divide_iff)
  let ?e = "bitlen n - bitlen d"
  have bn: "2 ^ nat (bitlen n - 1) \<le> n" "n < 2 ^ nat (bitlen n)"
    using bitlen_bounds [OF n] by simp_all
  have bd: "2 ^ nat (bitlen d - 1) \<le> d" "d < 2 ^ nat (bitlen d)"
    using bitlen_bounds [OF d] by simp_all
  have n1: "1 \<le> bitlen n" using n by (simp add: bitlen_alt_def)
  have d1: "1 \<le> bitlen d" using d by (simp add: bitlen_alt_def)
  have rn: "(2::rat) powi (bitlen n - 1) \<le> of_int n" "of_int n < (2::rat) powi bitlen n"
  proof -
    have "(of_int (2 ^ nat (bitlen n - 1)) :: rat) \<le> of_int n"
      using bn(1) by (simp only: of_int_le_iff)
    then show "(2::rat) powi (bitlen n - 1) \<le> of_int n"
      using n1 by (simp add: power_int_def)
    have "(of_int n :: rat) < of_int (2 ^ nat (bitlen n))"
      using bn(2) by (simp only: of_int_less_iff)
    then show "of_int n < (2::rat) powi bitlen n"
      using n1 by (simp add: power_int_def)
  qed
  have rd: "(2::rat) powi (bitlen d - 1) \<le> of_int d" "of_int d < (2::rat) powi bitlen d"
  proof -
    have "(of_int (2 ^ nat (bitlen d - 1)) :: rat) \<le> of_int d"
      using bd(1) by (simp only: of_int_le_iff)
    then show "(2::rat) powi (bitlen d - 1) \<le> of_int d"
      using d1 by (simp add: power_int_def)
    have "(of_int d :: rat) < of_int (2 ^ nat (bitlen d))"
      using bd(2) by (simp only: of_int_less_iff)
    then show "of_int d < (2::rat) powi bitlen d"
      using d1 by (simp add: power_int_def)
  qed
  have lo: "2 powi (?e - 1) < q"
  proof -
    have "(2::rat) powi (?e - 1) = 2 powi (bitlen n - 1) / 2 powi bitlen d"
      using power_int_diff [of "2::rat" "bitlen n - 1" "bitlen d"] by (simp add: algebra_simps)
    also have "\<dots> < of_int n / of_int d"
      by (rule frac_less2) (use rn rd d in simp_all)
    finally show ?thesis by (simp add: q)
  qed
  have hi: "q < 2 powi (?e + 1)"
  proof -
    have "of_int n / of_int d < (2::rat) powi bitlen n / 2 powi (bitlen d - 1)"
      by (rule frac_less) (use rn rd n in simp_all)
    also have "\<dots> = 2 powi (?e + 1)"
      using power_int_diff [of "2::rat" "bitlen n" "bitlen d - 1"] by (simp add: algebra_simps)
    finally show ?thesis by (simp add: q)
  qed
  have step: "(2::rat) powi (?e - 1 + 1) = 2 powi ?e" by simp
  show ?thesis
  proof (cases "2 powi ?e \<le> q")
    case True
    with hi nd show ?thesis by (simp add: binade_def Let_def)
  next
    case False
    with lo nd show ?thesis by (simp add: binade_def Let_def)
  qed
qed

text \<open>
  A rational of magnitude between \<open>2 powi (- 1022)\<close> and \<open>2 powi 1023\<close> rounds to a double
  within half a unit of it; the quotients of 32-bit integers are in that range.
\<close>

lemma powi_le_cancel: "(2::rat) powi a < 2 powi b \<Longrightarrow> a < b"
proof (rule ccontr)
  assume lt: "(2::rat) powi a < 2 powi b" and "\<not> a < b"
  then have "b \<le> a" by simp
  then have "(2::rat) powi b \<le> 2 powi a"
    by (rule power_int_increasing) simp
  with lt show False by simp
qed

lemma round_double_nearest:
  assumes q: "q \<noteq> 0" and lo: "2 powi (- 1022) \<le> \<bar>q\<bar>" and hi: "\<bar>q\<bar> < 2 powi 1023"
  shows "\<exists>m e. round_double q = Finite (of_int m * 2 powi e) \<and>
           - 1074 \<le> e \<and> e \<le> 971 \<and> \<bar>m\<bar> \<le> 2 ^ 53 \<and>
           2 powi (e + 52) \<le> \<bar>q\<bar> \<and> \<bar>q\<bar> < 2 powi (e + 53) \<and>
           2 * \<bar>of_int m * 2 powi e - q\<bar> \<le> 2 powi e"
proof -
  define E where "E = binade \<bar>q\<bar>"
  define e where "e = E - 52"
  define u :: rat where "u = 2 powi e"
  define y where "y = \<bar>q\<bar> / u"
  define M where "M = roundTiesToEven y"
  define m where "m = (if 0 < q then M else - M)"
  have a: "0 < \<bar>q\<bar>" using q by simp
  have b: "2 powi E \<le> \<bar>q\<bar>" "\<bar>q\<bar> < 2 powi (E + 1)"
    using binade_bounds [OF a] by (simp_all add: E_def)
  have "(2::rat) powi (- 1022) < 2 powi (E + 1)"
    using lo b(2) by simp
  then have E1: "- 1022 \<le> E"
    using powi_le_cancel [of "- 1022" "E + 1"] by simp
  have "(2::rat) powi E < 2 powi 1023"
    using hi b(1) by simp
  then have E2: "E \<le> 1022"
    using powi_le_cancel [of E 1023] by simp
  have u: "0 < u" by (simp add: u_def)
  have uE: "2 powi E = 2 ^ 52 * u"
    using power_int_add [of "2::rat" 52 e] by (simp add: u_def e_def)
  have uE1: "2 powi (E + 1) = 2 ^ 53 * u"
    using power_int_add [of "2::rat" 53 e] by (simp add: u_def e_def add.commute)
  have y1: "2 ^ 52 \<le> y"
    using b(1) u by (simp add: y_def uE pos_le_divide_eq)
  have y2: "y < 2 ^ 53"
    using b(2) u by (simp add: y_def uE1 pos_divide_less_eq)
  have M1: "2 ^ 52 \<le> M"
    unfolding M_def by (rule roundTiesToEven_lower) (use y1 in simp)
  have M2: "M \<le> 2 ^ 53"
    unfolding M_def by (rule roundTiesToEven_upper) (use y2 in simp)
  have err: "\<bar>of_int M - y\<bar> \<le> 1 / 2"
    unfolding M_def by (rule roundTiesToEven_error)
  define r where "r = of_int M * u"
  have r0: "0 < r"
    using M1 u by (simp add: r_def)
  have "(of_int M :: rat) \<le> of_int (2 ^ 53)"
    using M2 by (simp only: of_int_le_iff)
  then have "r \<le> 2 ^ 53 * u"
    using u by (simp add: r_def)
  also have "\<dots> = 2 powi (E + 1)"
    by (simp only: uE1)
  also have "\<dots> \<le> 2 powi 1023"
    by (rule power_int_increasing) (use E2 in simp_all)
  also have "\<dots> < (2::rat) powi 1024"
    by (rule power_int_strict_increasing) simp_all
  finally have r1: "r < 2 powi 1024" .
  have ex: "max (binade \<bar>q\<bar>) (- 1022) - 52 = e"
    using E1 by (simp add: E_def e_def max_def)
  have rr: "of_int (roundTiesToEven (\<bar>q\<bar> / 2 powi e)) * 2 powi e = r"
    by (simp add: r_def M_def y_def u_def)
  have "round_double q = Finite (if 0 < q then r else - r)"
    unfolding round_double_def Let_def ex rr using q r0 r1 by simp
  then have val: "round_double q = Finite (of_int m * 2 powi e)"
    by (simp add: m_def r_def u_def)
  have yu: "y * u = \<bar>q\<bar>"
    using u by (simp add: y_def)
  have "\<bar>of_int m * u - q\<bar> = \<bar>of_int M * u - \<bar>q\<bar>\<bar>"
  proof (cases "0 < q")
    case True
    then show ?thesis by (simp add: m_def)
  next
    case False
    with q have "q < 0" by simp
    then have "of_int m * u - q = - (of_int M * u - \<bar>q\<bar>)"
      by (simp add: m_def)
    then show ?thesis by (simp only: abs_minus)
  qed
  also have "\<dots> = \<bar>u * (of_int M - y)\<bar>"
    by (simp add: algebra_simps flip: yu)
  also have "\<dots> = u * \<bar>of_int M - y\<bar>"
    using u by (simp add: abs_mult)
  finally have dist: "\<bar>of_int m * u - q\<bar> = u * \<bar>of_int M - y\<bar>" .
  have near: "2 * \<bar>of_int m * u - q\<bar> \<le> u"
    using err u by (simp add: dist) 
  show ?thesis
  proof (intro exI conjI)
    show "round_double q = Finite (of_int m * 2 powi e)" by (rule val)
    show "- 1074 \<le> e" using E1 by (simp add: e_def)
    show "e \<le> 971" using E2 by (simp add: e_def)
    show "\<bar>m\<bar> \<le> 2 ^ 53" using M1 M2 by (simp add: m_def)
    show "2 powi (e + 52) \<le> \<bar>q\<bar>" using b(1) by (simp add: e_def)
    show "\<bar>q\<bar> < 2 powi (e + 53)" using b(2) by (simp add: e_def add.commute)
    show "2 * \<bar>of_int m * 2 powi e - q\<bar> \<le> 2 powi e"
      using near by (simp add: u_def)
  qed
qed

lemma quotient_range:
  fixes n d :: int
  assumes "n \<noteq> 0" "d \<noteq> 0" "\<bar>n\<bar> \<le> 2 ^ 32" "\<bar>d\<bar> \<le> 2 ^ 32"
  shows "2 powi (- 1022) \<le> \<bar>of_int n / of_int d :: rat\<bar>"
    and "\<bar>of_int n / of_int d :: rat\<bar> < 2 powi 1023"
proof -
  have n1: "(1::rat) \<le> \<bar>of_int n\<bar>" "\<bar>of_int n :: rat\<bar> \<le> 2 ^ 32"
  proof -
    have "1 \<le> \<bar>n\<bar>" using assms(1) by simp
    then have "(of_int 1 :: rat) \<le> of_int \<bar>n\<bar>" by (simp only: of_int_le_iff)
    then show "(1::rat) \<le> \<bar>of_int n\<bar>" by simp
    have "(of_int \<bar>n\<bar> :: rat) \<le> of_int (2 ^ 32)"
      using assms(3) by (simp only: of_int_le_iff)
    then show "\<bar>of_int n :: rat\<bar> \<le> 2 ^ 32" by simp
  qed
  have d1: "(1::rat) \<le> \<bar>of_int d\<bar>" "\<bar>of_int d :: rat\<bar> \<le> 2 ^ 32"
  proof -
    have "1 \<le> \<bar>d\<bar>" using assms(2) by simp
    then have "(of_int 1 :: rat) \<le> of_int \<bar>d\<bar>" by (simp only: of_int_le_iff)
    then show "(1::rat) \<le> \<bar>of_int d\<bar>" by simp
    have "(of_int \<bar>d\<bar> :: rat) \<le> of_int (2 ^ 32)"
      using assms(4) by (simp only: of_int_le_iff)
    then show "\<bar>of_int d :: rat\<bar> \<le> 2 ^ 32" by simp
  qed
  have "(2::rat) powi (- 1022) \<le> 2 powi (- 32)"
    by (rule power_int_increasing) simp_all
  also have "\<dots> = 1 / 2 ^ 32"
    by (simp add: power_int_def field_simps)
  also have "\<dots> \<le> \<bar>of_int n\<bar> / \<bar>of_int d\<bar>"
    by (rule frac_le) (use n1 d1 in simp_all)
  finally show "2 powi (- 1022) \<le> \<bar>of_int n / of_int d :: rat\<bar>"
    by simp
  have "\<bar>of_int n :: rat\<bar> / \<bar>of_int d\<bar> \<le> 2 ^ 32 / 1"
    by (rule frac_le) (use n1 d1 in simp_all)
  also have "\<dots> = 2 powi 32"
    by (simp add: power_int_def)
  also have "\<dots> < (2::rat) powi 1023"
    by (rule power_int_strict_increasing) simp_all
  finally show "\<bar>of_int n / of_int d :: rat\<bar> < 2 powi 1023"
    by simp
qed

text \<open>
  The quotient of two 32-bit integers is never half way between two doubles: half way,
  it would be an odd multiple of \<open>2 powi (e - 1)\<close>, the multiplier of 54 bits dividing the
  numerator.
\<close>

lemma no_tie:
  fixes n d m e :: int
  assumes n: "n \<noteq> 0" and d: "d \<noteq> 0" and n32: "\<bar>n\<bar> \<le> 2 ^ 32"
    and lo: "2 powi (e + 52) \<le> \<bar>of_int n / of_int d :: rat\<bar>"
  shows "2 * \<bar>of_int m * 2 powi e - of_int n / of_int d\<bar> \<noteq> (2 powi e :: rat)"
proof
  define q :: rat where "q = of_int n / of_int d"
  define u :: rat where "u = 2 powi e"
  assume "2 * \<bar>of_int m * 2 powi e - of_int n / of_int d\<bar> = (2 powi e :: rat)"
  then have tie: "2 * \<bar>of_int m * u - q\<bar> = u"
    by (simp add: q_def u_def)
  have u: "0 < u" by (simp add: u_def)
  define K where "K = (if q \<le> of_int m * u then 2 * m - 1 else 2 * m + 1)"
  have odd: "odd K" by (simp add: K_def)
  have qK: "2 * q = of_int K * u"
    using tie by (auto simp: K_def abs_if algebra_simps split: if_splits)
  have "(2::rat) powi (e + 53) = 2 * 2 powi (e + 52)"
    using power_int_add [of "2::rat" 1 "e + 52"] by (simp add: add.commute)
  also have "\<dots> \<le> \<bar>2 * q\<bar>"
    using lo by (simp add: q_def abs_mult)
  also have "\<dots> = \<bar>of_int K\<bar> * u"
    using u by (simp add: qK abs_mult)
  finally have "2 ^ 53 * u \<le> \<bar>of_int K\<bar> * u"
    using power_int_add [of "2::rat" 53 e] by (simp add: u_def add.commute)
  then have "(of_int (2 ^ 53) :: rat) \<le> of_int \<bar>K\<bar>"
    using u by simp
  then have K: "2 ^ 53 \<le> \<bar>K\<bar>"
    by (simp only: of_int_le_iff)
  have nd: "2 * of_int n = of_int (K * d) * u"
    using qK d by (simp add: q_def field_simps)
  show False
  proof (cases "0 \<le> e")
    case True
    then have "u = of_int (2 ^ nat e)"
      by (simp add: u_def power_int_def)
    with nd have "(of_int (2 * n) :: rat) = of_int (K * d * 2 ^ nat e)"
      by simp
    then have "2 * n = K * d * 2 ^ nat e"
      by (simp only: of_int_eq_iff)
    then have "\<bar>2 * n\<bar> = \<bar>K\<bar> * (\<bar>d\<bar> * 2 ^ nat e)"
      by (simp add: abs_mult)
    moreover have "1 \<le> \<bar>d\<bar> * 2 ^ nat e"
    proof -
      have "1 \<le> \<bar>d\<bar>" using d by simp
      moreover have "(1::int) \<le> 2 ^ nat e" by simp
      ultimately have "1 * 1 \<le> \<bar>d\<bar> * 2 ^ nat e"
        by (rule mult_mono) simp_all
      then show ?thesis by simp
    qed
    ultimately have "\<bar>K\<bar> \<le> \<bar>2 * n\<bar>"
      by (metis abs_ge_zero mult.right_neutral mult_left_mono)
    with K n32 show False by simp
  next
    case False
    then have inv: "u * of_int (2 ^ nat (- e)) = 1"
      by (simp add: u_def power_int_def power_one_over)
    have "(of_int (2 * n * 2 ^ nat (- e)) :: rat) = 2 * of_int n * of_int (2 ^ nat (- e))"
      by simp
    also have "\<dots> = of_int (K * d) * u * of_int (2 ^ nat (- e))"
      by (simp only: nd)
    also have "\<dots> = of_int (K * d) * (u * of_int (2 ^ nat (- e)))"
      by (simp only: mult.assoc)
    also have "\<dots> = of_int (K * d)"
      by (simp only: inv mult_1_right)
    finally have "2 * n * 2 ^ nat (- e) = K * d"
      by (simp only: of_int_eq_iff)
    then have "K dvd n * 2 ^ Suc (nat (- e))"
      by (simp add: dvd_def mult_ac)
    moreover have "coprime K (2 ^ Suc (nat (- e)))"
      using odd by (simp only: coprime_power_right_iff coprime_right_2_iff_odd) simp
    ultimately have "K dvd n"
      by (simp only: coprime_dvd_mult_left_iff)
    with n have "\<bar>K\<bar> \<le> \<bar>n\<bar>"
      by (simp add: dvd_imp_le_int)
    with K n32 show False by simp
  qed
qed

lemma js_div_nearest:
  assumes "n \<noteq> 0" "d \<noteq> 0" "\<bar>n\<bar> \<le> 2 ^ 32" "\<bar>d\<bar> \<le> 2 ^ 32"
  shows "\<exists>m e. js_div n d = Finite (of_int m * 2 powi e) \<and>
           nearest_double (of_int n / of_int d) m e"
proof -
  let ?q = "of_int n / of_int d :: rat"
  have "?q \<noteq> 0"
    using assms by simp
  from round_double_nearest [OF this quotient_range [OF assms]]
  obtain m e where r: "round_double ?q = Finite (of_int m * 2 powi e)"
    and e: "- 1074 \<le> e" "e \<le> 971" and m: "\<bar>m\<bar> \<le> 2 ^ 53"
    and q: "2 powi (e + 52) \<le> \<bar>?q\<bar>" "\<bar>?q\<bar> < 2 powi (e + 53)"
    and le: "2 * \<bar>of_int m * 2 powi e - ?q\<bar> \<le> 2 powi e"
    by blast
  from no_tie [OF assms(1,2,3) q(1), of m] le
  have "2 * \<bar>of_int m * 2 powi e - ?q\<bar> < 2 powi e"
    by simp
  with e m q have "nearest_double ?q m e"
    by (simp add: nearest_double_def)
  moreover from r assms have "js_div n d = Finite (of_int m * 2 powi e)"
    by (simp add: js_div_def)
  ultimately show ?thesis by blast
qed

text \<open>The integers that the reader returns fit their width.\<close>

lemma uintLE_bound: "uintLE bs < 256 ^ length bs"
proof (induction bs)
  case Nil
  show ?case by simp
next
  case (Cons b bs)
  have "unat b < 256"
    using unsigned_less [of b, where ?'a = nat] by simp
  with Cons show ?case by simp
qed

lemma readBytes_length: "readBytes v off n = Inr bs \<Longrightarrow> length bs = n"
  by (auto simp: readBytes_def split: if_splits)

lemma getUint_bound:
  assumes "getUint n v off = Inr u"
  shows "u < 256 ^ n"
proof -
  from assms obtain bs where bs: "readBytes v off n = Inr bs"
    and u: "u = (if le v then uintLE bs else uintLE (rev bs))"
    by (cases "readBytes v off n") (auto simp: getUint_def)
  have "length bs = n"
    using bs by (rule readBytes_length)
  with uintLE_bound [of bs] uintLE_bound [of "rev bs"] u show ?thesis
    by auto
qed

lemma getUint32_bound: "getUint32 v off = Inr u \<Longrightarrow> \<bar>int u\<bar> \<le> 2 ^ 32"
  using getUint_bound [of 4 v off u] by (simp add: getUint32_def)

lemma getInt32_bound: "getInt32 v off = Inr n \<Longrightarrow> \<bar>n\<bar> \<le> 2 ^ 32"
proof -
  assume "getInt32 v off = Inr n"
  then obtain u where u: "getUint 4 v off = Inr u" and n: "n = toSigned 4 u"
    by (cases "getUint 4 v off") (auto simp: getInt32_def)
  from getUint_bound [OF u] have "u < 2 ^ 32" by simp
  then show ?thesis
    by (simp add: n toSigned_def)
qed

text \<open>The division of two 32-bit integers.\<close>

lemma js_div_zero:
  "js_div n 0 = (if n = 0 then NaN else if 0 < n then PosInfinity else NegInfinity)"
  "\<not> is_finite (js_div n 0)"
  by (simp_all add: js_div_def)

lemma js_div_of_zero: "d \<noteq> 0 \<Longrightarrow> js_div 0 d = (if 0 < d then Finite 0 else NegZero)"
  by (simp add: js_div_def)

text \<open>
  C5: a RATIONAL (type 5) scalar is the quotient of the two unsigned 32-bit integers at
  the offset and at offset+4, an SRATIONAL (type 10) scalar the quotient of the two signed
  ones, as a floating value: the double nearest to the exact quotient, and a zero with the
  sign of the denominator where the numerator is zero. With denominator zero the decoder
  does not throw: the value is not finite (an infinity, or NaN for 0/0).
\<close>

theorem rational_scalar:
  "(getUint32 v offset = Inr a \<and> getUint32 v (offset + 4) = Inr b \<longrightarrow>
      (\<exists>x. parseTagValue v 5 offset = Inr x \<and>
           (if b = 0 then \<not> is_finite x \<and> x = (if a = 0 then NaN else PosInfinity)
            else if a = 0 then x = Finite 0
            else \<exists>m e. x = Finite (of_int m * 2 powi e) \<and>
                   nearest_double (of_nat a / of_nat b) m e))) \<and>
   (getInt32 v offset = Inr n \<and> getInt32 v (offset + 4) = Inr d \<longrightarrow>
      (\<exists>x. parseTagValue v 10 offset = Inr x \<and>
           (if d = 0 then
              \<not> is_finite x \<and>
              x = (if n = 0 then NaN else if 0 < n then PosInfinity else NegInfinity)
            else if n = 0 then x = (if 0 < d then Finite 0 else NegZero)
            else \<exists>m e. x = Finite (of_int m * 2 powi e) \<and>
                   nearest_double (of_int n / of_int d) m e)))"
proof (intro conjI impI)
  assume r: "getUint32 v offset = Inr a \<and> getUint32 v (offset + 4) = Inr b"
  then have range: "\<bar>int a\<bar> \<le> 2 ^ 32" "\<bar>int b\<bar> \<le> 2 ^ 32"
    using getUint32_bound [of v offset a] getUint32_bound [of v "offset + 4" b] by blast+
  from r have x: "parseTagValue v 5 offset = Inr (js_div (int a) (int b))"
    by (simp add: parseTagValue_def)
  have "if b = 0 then \<not> is_finite (js_div (int a) (int b)) \<and>
            js_div (int a) (int b) = (if a = 0 then NaN else PosInfinity)
        else if a = 0 then js_div (int a) (int b) = Finite 0
        else \<exists>m e. js_div (int a) (int b) = Finite (of_int m * 2 powi e) \<and>
               nearest_double (of_nat a / of_nat b) m e"
  proof (cases "b = 0")
    case True
    then show ?thesis by (simp add: js_div_zero)
  next
    case b: False
    show ?thesis
    proof (cases "a = 0")
      case True
      with b show ?thesis by (simp add: js_div_of_zero)
    next
      case False
      with b range js_div_nearest [of "int a" "int b"] show ?thesis by simp
    qed
  qed
  with x show "\<exists>x. parseTagValue v 5 offset = Inr x \<and>
      (if b = 0 then \<not> is_finite x \<and> x = (if a = 0 then NaN else PosInfinity)
       else if a = 0 then x = Finite 0
       else \<exists>m e. x = Finite (of_int m * 2 powi e) \<and>
              nearest_double (of_nat a / of_nat b) m e)"
    by blast
next
  assume r: "getInt32 v offset = Inr n \<and> getInt32 v (offset + 4) = Inr d"
  then have range: "\<bar>n\<bar> \<le> 2 ^ 32" "\<bar>d\<bar> \<le> 2 ^ 32"
    using getInt32_bound [of v offset n] getInt32_bound [of v "offset + 4" d] by blast+
  from r have x: "parseTagValue v 10 offset = Inr (js_div n d)"
    by (simp add: parseTagValue_def)
  have "if d = 0 then
          \<not> is_finite (js_div n d) \<and>
          js_div n d = (if n = 0 then NaN else if 0 < n then PosInfinity else NegInfinity)
        else if n = 0 then js_div n d = (if 0 < d then Finite 0 else NegZero)
        else \<exists>m e. js_div n d = Finite (of_int m * 2 powi e) \<and>
               nearest_double (of_int n / of_int d) m e"
  proof (cases "d = 0")
    case True
    then show ?thesis by (simp add: js_div_zero)
  next
    case d: False
    show ?thesis
    proof (cases "n = 0")
      case True
      with d show ?thesis by (simp add: js_div_of_zero)
    next
      case False
      with d range js_div_nearest [of n d] show ?thesis by simp
    qed
  qed
  with x show "\<exists>x. parseTagValue v 10 offset = Inr x \<and>
      (if d = 0 then
         \<not> is_finite x \<and>
         x = (if n = 0 then NaN else if 0 < n then PosInfinity else NegInfinity)
       else if n = 0 then x = (if 0 < d then Finite 0 else NegZero)
       else \<exists>m e. x = Finite (of_int m * 2 powi e) \<and>
              nearest_double (of_int n / of_int d) m e)"
    by blast
qed

theorem rational_scalar_witness:
  "getUint32 rational_third 0 = Inr 1 \<and>
   getUint32 rational_third 4 = Inr 3 \<and>
   getInt32 rational_third 8 = Inr (- 1) \<and>
   getInt32 rational_third 12 = Inr 3 \<and>
   getInt32 rational_third 16 = Inr 0 \<and>
   getInt32 rational_third 20 = Inr (- 3) \<and>
   (\<exists>m e. parseTagValue rational_third 5 0 = Inr (Finite (of_int m * 2 powi e)) \<and>
          nearest_double (1 / 3) m e) \<and>
   (\<exists>m e. parseTagValue rational_third 10 8 = Inr (Finite (of_int m * 2 powi e)) \<and>
          nearest_double (- 1 / 3) m e) \<and>
   parseTagValue rational_third 10 16 = Inr NegZero \<and>
   parseTagValue rational_third 5 0 = Inr (Finite (6004799503160661 / 18014398509481984)) \<and>
   parseTagValue rational_third 10 8 = Inr (Finite (- 6004799503160661 / 18014398509481984)) \<and>
   nearest_double (1 / 3) 6004799503160661 (- 54) \<and>
   getUint32 rational_zero_denominator 0 = Inr 5 \<and>
   getUint32 rational_zero_denominator 4 = Inr 0 \<and>
   getInt32 rational_zero_denominator 8 = Inr (- 5) \<and>
   getInt32 rational_zero_denominator 12 = Inr 0 \<and>
   (\<exists>x. parseTagValue rational_zero_denominator 5 0 = Inr x \<and> \<not> is_finite x) \<and>
   (\<exists>x. parseTagValue rational_zero_denominator 10 8 = Inr x \<and> \<not> is_finite x) \<and>
   parseTagValue rational_zero_denominator 5 0 = Inr PosInfinity \<and>
   parseTagValue rational_zero_denominator 10 8 = Inr NegInfinity"
proof -
  note rd = getUint32_def getInt32_def getUint_def readBytes_def toSigned_def
  have a: "getUint32 rational_third 0 = Inr 1"
    by (simp add: rational_third_def rd)
  have b: "getUint32 rational_third (0 + 4) = Inr 3"
    by (simp add: rational_third_def rd)
  have n: "getInt32 rational_third 8 = Inr (- 1)"
    by (simp add: rational_third_def rd)
  have d: "getInt32 rational_third (8 + 4) = Inr 3"
    by (simp add: rational_third_def rd)
  have n0: "getInt32 rational_third 16 = Inr 0"
    by (simp add: rational_third_def rd)
  have d0: "getInt32 rational_third (16 + 4) = Inr (- 3)"
    by (simp add: rational_third_def rd)
  have za: "getUint32 rational_zero_denominator 0 = Inr 5"
    by (simp add: rational_zero_denominator_def rd)
  have zb: "getUint32 rational_zero_denominator (0 + 4) = Inr 0"
    by (simp add: rational_zero_denominator_def rd)
  have zn: "getInt32 rational_zero_denominator 8 = Inr (- 5)"
    by (simp add: rational_zero_denominator_def rd)
  have zd: "getInt32 rational_zero_denominator (8 + 4) = Inr 0"
    by (simp add: rational_zero_denominator_def rd)
  have third: "js_div 1 3 = Finite (6004799503160661 / 18014398509481984)"
    by code_simp
  have minus_third: "js_div (- 1) 3 = Finite (- 6004799503160661 / 18014398509481984)"
    by code_simp
  have unsigned: "\<exists>m e. parseTagValue rational_third 5 0 = Inr (Finite (of_int m * 2 powi e)) \<and>
      nearest_double (1 / 3) m e"
    using rational_scalar [of rational_third 0 1 3, THEN conjunct1] a b by auto
  have signed: "\<exists>m e. parseTagValue rational_third 10 8 = Inr (Finite (of_int m * 2 powi e)) \<and>
      nearest_double (- 1 / 3) m e"
    using rational_scalar [of rational_third 8 _ _ "- 1" 3, THEN conjunct2] n d by auto
  have zero: "parseTagValue rational_third 10 16 = Inr NegZero"
    using rational_scalar [of rational_third 16 _ _ 0 "- 3", THEN conjunct2] n0 d0 by simp
  have zu: "\<exists>x. parseTagValue rational_zero_denominator 5 0 = Inr x \<and> \<not> is_finite x"
    "parseTagValue rational_zero_denominator 5 0 = Inr PosInfinity"
    using rational_scalar [of rational_zero_denominator 0 5 0, THEN conjunct1] za zb by simp_all
  have zs: "\<exists>x. parseTagValue rational_zero_denominator 10 8 = Inr x \<and> \<not> is_finite x"
    "parseTagValue rational_zero_denominator 10 8 = Inr NegInfinity"
    using rational_scalar [of rational_zero_denominator 8 _ _ "- 5" 0, THEN conjunct2] zn zd
    by simp_all
  have v3: "parseTagValue rational_third 5 0 = Inr (Finite (6004799503160661 / 18014398509481984))"
    using a b third by (simp add: parseTagValue_def)
  have vm3: "parseTagValue rational_third 10 8 =
      Inr (Finite (- 6004799503160661 / 18014398509481984))"
    using n d minus_third by (simp add: parseTagValue_def)
  have near: "nearest_double (1 / 3) 6004799503160661 (- 54)"
    by (simp add: nearest_double_def power_int_def power_one_over)
  from a b n d n0 d0 za zb zn zd unsigned signed zero zu zs v3 vm3 near show ?thesis
    by simp
qed

section \<open>Inline and out-of-line values\<close>

text \<open>The loop of lines 100 to 103 reads the scalars at \<open>off\<close>, \<open>off + w\<close>, and so on.\<close>

lemma parseTagArray_collect:
  "parseTagArray v type w count i off res =
     bindE (collect (map (\<lambda>j. parseTagValue v type (off + (j - i) * w)) [i..<count]))
       (\<lambda>xs. Inr (res @ xs))"
proof (induction v type w count i off res rule: parseTagArray.induct)
  case (1 v type w count i off res)
  show ?case
  proof (cases "i < count")
    case False
    then show ?thesis
      by (subst parseTagArray.simps) simp
  next
    case True
    let ?rest = "map (\<lambda>j. parseTagValue v type (off + (j - i) * w)) [Suc i..<count]"
    have shift: "map (\<lambda>j. parseTagValue v type (off + w + (j - Suc i) * w)) [Suc i..<count] = ?rest"
    proof (rule map_cong [OF refl])
      fix j assume "j \<in> set [Suc i..<count]"
      then have "j - i = Suc (j - Suc i)" by auto
      then show "parseTagValue v type (off + w + (j - Suc i) * w) =
                 parseTagValue v type (off + (j - i) * w)"
        by (simp add: add.assoc)
    qed
    have unroll: "map (\<lambda>j. parseTagValue v type (off + (j - i) * w)) [i..<count] =
                  parseTagValue v type off # ?rest"
      using True by (simp add: upt_conv_Cons)
    show ?thesis
    proof (cases "parseTagValue v type off")
      case (Inl e)
      with True show ?thesis
        by (subst parseTagArray.simps) (simp add: unroll)
    next
      case (Inr x)
      have "parseTagArray v type w count i off res =
            parseTagArray v type w count (Suc i) (off + w) (res @ [x])"
        using True Inr by (subst parseTagArray.simps) simp
      also have "\<dots> = bindE (collect ?rest) (\<lambda>xs. Inr ((res @ [x]) @ xs))"
        using 1 [OF True, of x] by (simp add: shift)
      also have "\<dots> = bindE (collect (parseTagValue v type off # ?rest)) (\<lambda>xs. Inr (res @ xs))"
        by (cases "collect ?rest") (simp_all add: Inr)
      finally show ?thesis
        by (simp only: unroll)
    qed
  qed
qed




section \<open>Offsets beyond the buffer\<close>

lemma getUint_out_of_range:
  "length (bytes v) < off + n \<Longrightarrow> getUint n v off = Inl OffsetOutOfBounds"
  by (simp add: getUint_def readBytes_def)

text \<open>
  C1: when the value of an entry is stored out of line (\<open>width * count > 4\<close>) and the
  32-bit offset read at entry+8 exceeds the buffer's byte length, decoding fails with
  \<open>OffsetOutOfBounds\<close>: nothing is read at the offset and nothing is clamped. The same
  failure ends \<open>parseThumbnailBlock\<close> when the pointer to IFD1 is not zero and the
  directory's entry count at that offset lies outside the view; there it is the byte
  reader that fails.
\<close>

theorem offset_out_of_bounds:
  "(getUint16 v (offset + 2) = Inr type \<and> getUint32 v (offset + 4) = Inr valuesCount \<and>
    SIZE_LOOKUP type = Some w \<and> 4 < w * valuesCount \<and>
    getUint32 v (offset + 8) = Inr valueOffset \<and> buffer_byteLength v < valueOffset \<longrightarrow>
      parseTag v offset = Inl OffsetOutOfBounds) \<and>
   (thumbnail d = None \<and> \<not> thumbnailParsed d \<and> (force \<or> \<not> mergeOutput (options d)) \<and>
    ifd0Offset d = Some off0 \<and> getUint16 (view d) off0 = Inr ifd0Entries \<and>
    getUint32 (view d) (off0 + 2 + ifd0Entries * 12) = Inr off1 \<and> off1 \<noteq> 0 \<and>
    length (bytes (view d)) < off1 + 2 \<longrightarrow>
      parseThumbnailBlock force d = Inl OffsetOutOfBounds)"
proof (intro conjI impI)
  assume "getUint16 v (offset + 2) = Inr type \<and> getUint32 v (offset + 4) = Inr valuesCount \<and>
    SIZE_LOOKUP type = Some w \<and> 4 < w * valuesCount \<and>
    getUint32 v (offset + 8) = Inr valueOffset \<and> buffer_byteLength v < valueOffset"
  then show "parseTag v offset = Inl OffsetOutOfBounds"
    by (simp add: parseTag_fields)
next
  assume h: "thumbnail d = None \<and> \<not> thumbnailParsed d \<and> (force \<or> \<not> mergeOutput (options d)) \<and>
    ifd0Offset d = Some off0 \<and> getUint16 (view d) off0 = Inr ifd0Entries \<and>
    getUint32 (view d) (off0 + 2 + ifd0Entries * 12) = Inr off1 \<and> off1 \<noteq> 0 \<and>
    length (bytes (view d)) < off1 + 2"
  then have "getUint16 (view d) off1 = Inl OffsetOutOfBounds"
    unfolding getUint16_def by (intro getUint_out_of_range) simp
  then have "parseTags (view d) (options d) off1 = Inl OffsetOutOfBounds"
    by (simp add: parseTags_def)
  with h show "parseThumbnailBlock force d = Inl OffsetOutOfBounds"
    by (auto simp: parseThumbnailBlock_def)
qed

theorem offset_out_of_bounds_witness:
  "getUint16 entry_far 2 = Inr 3 \<and> getUint32 entry_far 4 = Inr 3 \<and>
   getUint32 entry_far 8 = Inr 19 \<and> buffer_byteLength entry_far = 18 \<and>
   parseTag entry_far 0 = Inl OffsetOutOfBounds \<and>
   bindE (parseHeader (newTiff buffer_far_ifd1 options_grouped)) parseIfd0Block =
     Inr tiff_far_ifd1 \<and>
   getUint32 (view tiff_far_ifd1) 22 = Inr 64 \<and>
   length (bytes (view tiff_far_ifd1)) = 26 \<and>
   parseThumbnailBlock False tiff_far_ifd1 = Inl OffsetOutOfBounds"
proof (intro conjI)
  have t: "getUint16 entry_far (0 + 2) = Inr 3"
    by (simp add: entry_far_def reader_defs)
  have c: "getUint32 entry_far (0 + 4) = Inr 3"
    by (simp add: entry_far_def reader_defs)
  have s: "SIZE_LOOKUP 3 = Some 2"
    by (simp add: SIZE_LOOKUP_def)
  have o: "getUint32 entry_far (0 + 8) = Inr 19"
    by (simp add: entry_far_def reader_defs)
  have b: "buffer_byteLength entry_far < 19"
    by (simp add: entry_far_def)
  from offset_out_of_bounds [of entry_far 0 3 3 2 19, THEN conjunct1] t c s o b
  show "parseTag entry_far 0 = Inl OffsetOutOfBounds"
    by simp
  have 1: "thumbnail tiff_far_ifd1 = None \<and> \<not> thumbnailParsed tiff_far_ifd1 \<and>
           \<not> mergeOutput (options tiff_far_ifd1) \<and> ifd0Offset tiff_far_ifd1 = Some 8"
    by (simp add: tiff_far_ifd1_def newTiff_def options_grouped_def)
  have 2: "getUint16 (view tiff_far_ifd1) 8 = Inr 1"
    by (simp add: tiff_far_ifd1_def newTiff_def buffer_far_ifd1_def reader_defs)
  have 3: "getUint32 (view tiff_far_ifd1) (8 + 2 + 1 * 12) = Inr 64"
    by (simp add: tiff_far_ifd1_def newTiff_def buffer_far_ifd1_def reader_defs)
  have 4: "length (bytes (view tiff_far_ifd1)) < 64 + 2"
    by (simp add: tiff_far_ifd1_def newTiff_def buffer_far_ifd1_def)
  from offset_out_of_bounds [of _ _ _ _ _ _ tiff_far_ifd1 False 8 1 64, THEN conjunct2]
    1 2 3 4
  show "parseThumbnailBlock False tiff_far_ifd1 = Inl OffsetOutOfBounds"
    by simp
  show "bindE (parseHeader (newTiff buffer_far_ifd1 options_grouped)) parseIfd0Block =
          Inr tiff_far_ifd1"
    by (simp add: block_defs decode_defs reader_defs buffer_far_ifd1_def options_grouped_def
        tiff_far_ifd1_def)
qed (simp_all add: entry_far_def tiff_far_ifd1_def newTiff_def buffer_far_ifd1_def reader_defs)

section \<open>Malformed headers\<close>

text \<open>Where an error of a sequence of steps comes from.\<close>

lemma bindE_eq_Inl: "bindE m f = Inl e \<longleftrightarrow> m = Inl e \<or> (\<exists>x. m = Inr x \<and> f x = Inl e)"
  by (cases m) simp_all

lemma bindE_eq_Inr: "bindE m f = Inr y \<longleftrightarrow> (\<exists>x. m = Inr x \<and> f x = Inr y)"
  by (cases m) simp_all

lemma bindE_not_error:
  "m \<noteq> Inl e \<Longrightarrow> (\<And>x. f x \<noteq> Inl e) \<Longrightarrow> bindE m f \<noteq> Inl e"
  by (cases m) simp_all

lemma getUint_error: "getUint n v off = Inl e \<Longrightarrow> e = OffsetOutOfBounds"
  by (auto simp: getUint_def readBytes_def split: if_splits)

lemma reader_not_malformed [simp]:
  "getUint n v off \<noteq> Inl MalformedHeader"
  "getUint8 v off \<noteq> Inl MalformedHeader"
  "getUint16 v off \<noteq> Inl MalformedHeader"
  "getUint32 v off \<noteq> Inl MalformedHeader"
  "getInt8 v off \<noteq> Inl MalformedHeader"
  "getInt16 v off \<noteq> Inl MalformedHeader"
  "getInt32 v off \<noteq> Inl MalformedHeader"
  "getFloat v off \<noteq> Inl MalformedHeader"
  "getDouble v off \<noteq> Inl MalformedHeader"
  "getString v off n \<noteq> Inl MalformedHeader"
  "slice v off n \<noteq> Inl MalformedHeader"
  by (auto simp: reader_defs getString_def bindE_eq_Inl split: if_splits)

lemma parseTagValue_not_malformed [simp]: "parseTagValue v t off \<noteq> Inl MalformedHeader"
  by (simp add: parseTagValue_def bindE_eq_Inl)

lemma collect_not_error:
  "(\<And>r. r \<in> set rs \<Longrightarrow> r \<noteq> Inl e) \<Longrightarrow> collect rs \<noteq> Inl e"
  by (induction rs) (auto simp: bindE_eq_Inl)

lemma parseTagArray_not_malformed [simp]:
  "parseTagArray v t w n i off res \<noteq> Inl MalformedHeader"
  unfolding parseTagArray_collect
  by (intro bindE_not_error collect_not_error) auto

lemma parseTag_not_malformed [simp]: "parseTag v off \<noteq> Inl MalformedHeader"
  by (simp add: parseTag_def Let_def bindE_eq_Inl)

lemma parseTagsLoop_not_malformed [simp]:
  "parseTagsLoop v opts n i off out \<noteq> Inl MalformedHeader"
proof (induction v opts n i off out rule: parseTagsLoop.induct)
  case (1 v opts n i off out)
  show ?case
  proof (cases "i < n")
    case False
    then show ?thesis
      by (subst parseTagsLoop.simps) simp
  next
    case True
    from 1 True show ?thesis
      by (subst parseTagsLoop.simps) (auto simp: bindE_eq_Inl)
  qed
qed

lemma parseTags_not_malformed [simp]: "parseTags v opts off \<noteq> Inl MalformedHeader"
  by (simp add: parseTags_def bindE_eq_Inl)

lemma parseTagsAt_not_malformed [simp]: "parseTagsAt v opts x \<noteq> Inl MalformedHeader"
  by (simp add: parseTagsAt_def split: option.splits)

lemma parseExifBlock_not_malformed [simp]: "parseExifBlock d \<noteq> Inl MalformedHeader"
  by (simp add: parseExifBlock_def bindE_eq_Inl split: option.splits)

lemma parseGpsBlock_not_malformed [simp]: "parseGpsBlock d \<noteq> Inl MalformedHeader"
  by (simp add: parseGpsBlock_def bindE_eq_Inl split: option.splits)

lemma parseInteropBlock_not_malformed [simp]: "parseInteropBlock d \<noteq> Inl MalformedHeader"
  by (simp add: parseInteropBlock_def Let_def bindE_eq_Inl split: option.splits)

lemma parseThumbnailBlock_not_malformed [simp]:
  "parseThumbnailBlock force d \<noteq> Inl MalformedHeader"
  by (simp add: parseThumbnailBlock_def Let_def bindE_eq_Inl split: option.splits)

lemma spread_not_malformed [simp]: "spread x \<noteq> Inl MalformedHeader"
  by (cases x) simp_all

lemma refineGps_not_malformed [simp]: "refineGps ext g \<noteq> Inl MalformedHeader"
  by (simp add: refineGps_def Let_def bindE_eq_Inl split: option.splits)

lemma postProcess_not_malformed [simp]: "postProcess ext d \<noteq> Inl MalformedHeader"
  by (simp add: postProcess_def bindE_eq_Inl split: option.splits)

text \<open>
  C4: \<open>parseHeader\<close> reads the 16-bit word at offset 0, selects little-endian exactly
  when it is \<open>0x4949\<close> and big-endian exactly when it is \<open>0x4D4D\<close>, and fails with
  \<open>MalformedHeader\<close> for any other value and when the 16-bit word at offset 2 is not
  \<open>0x002A\<close>; \<open>parseIfd0Block\<close> fails with \<open>MalformedHeader\<close> when the 32-bit IFD0 offset
  read at offset 4 is below 8. Nothing else raises \<open>MalformedHeader\<close>: no other block
  operation does, nor \<open>postProcess\<close>, and a whole \<open>parse\<close> fails with it exactly when
  one of these two steps does.
\<close>

theorem malformed_header:
  "(parseHeader d = Inl MalformedHeader \<longleftrightarrow>
      (\<exists>byteOrder. getUint16 (view d) 0 = Inr byteOrder \<and>
         (byteOrder \<noteq> 0x4949 \<and> byteOrder \<noteq> 0x4D4D \<or>
          (\<exists>magic. getUint16 ((view d)\<lparr>le := (byteOrder = 0x4949)\<rparr>) 2 = Inr magic \<and>
             magic \<noteq> 0x002A)))) \<and>
   (parseHeader d = Inr d' \<longrightarrow>
      (\<exists>byteOrder. getUint16 (view d) 0 = Inr byteOrder \<and>
         (byteOrder = 0x4949 \<or> byteOrder = 0x4D4D) \<and>
         le (view d') = (byteOrder = 0x4949) \<and> tiff_le d' = Some (byteOrder = 0x4949))) \<and>
   (parseIfd0Block d = Inl MalformedHeader \<longleftrightarrow>
      ifd0 d = None \<and> (\<exists>off. getUint32 (view d) 4 = Inr off \<and> off < 8)) \<and>
   parseExifBlock d \<noteq> Inl MalformedHeader \<and>
   parseGpsBlock d \<noteq> Inl MalformedHeader \<and>
   parseInteropBlock d \<noteq> Inl MalformedHeader \<and>
   parseThumbnailBlock force d \<noteq> Inl MalformedHeader \<and>
   postProcess ext d \<noteq> Inl MalformedHeader \<and>
   (parse ext d = Inl MalformedHeader \<longleftrightarrow>
      parseHeader d = Inl MalformedHeader \<or>
      (\<exists>d1. parseHeader d = Inr d1 \<and> parseIfd0Block d1 = Inl MalformedHeader))"
proof (intro conjI)
  show "parseHeader d = Inl MalformedHeader \<longleftrightarrow>
      (\<exists>byteOrder. getUint16 (view d) 0 = Inr byteOrder \<and>
         (byteOrder \<noteq> 0x4949 \<and> byteOrder \<noteq> 0x4D4D \<or>
          (\<exists>magic. getUint16 ((view d)\<lparr>le := (byteOrder = 0x4949)\<rparr>) 2 = Inr magic \<and>
             magic \<noteq> 0x002A)))"
  proof (cases "getUint16 (view d) 0")
    case (Inl e)
    with getUint_error [of 2 "view d" 0 e] show ?thesis
      by (simp add: parseHeader_def getUint16_def)
  next
    case (Inr byteOrder)
    consider "byteOrder = 0x4949" | "byteOrder = 0x4D4D"
      | "byteOrder \<noteq> 0x4949 \<and> byteOrder \<noteq> 0x4D4D"
      by blast
    then show ?thesis
      by cases (auto simp: parseHeader_def Inr Let_def bindE_eq_Inl)
  qed
  show "parseHeader d = Inr d' \<longrightarrow>
      (\<exists>byteOrder. getUint16 (view d) 0 = Inr byteOrder \<and>
         (byteOrder = 0x4949 \<or> byteOrder = 0x4D4D) \<and>
         le (view d') = (byteOrder = 0x4949) \<and> tiff_le d' = Some (byteOrder = 0x4949))"
    by (auto simp: parseHeader_def Let_def bindE_eq_Inr split: if_splits)
  show "parseIfd0Block d = Inl MalformedHeader \<longleftrightarrow>
      ifd0 d = None \<and> (\<exists>off. getUint32 (view d) 4 = Inr off \<and> off < 8)"
    by (auto simp: parseIfd0Block_def Let_def bindE_eq_Inl split: if_splits)
  show "parse ext d = Inl MalformedHeader \<longleftrightarrow>
      parseHeader d = Inl MalformedHeader \<or>
      (\<exists>d1. parseHeader d = Inr d1 \<and> parseIfd0Block d1 = Inl MalformedHeader)"
    by (simp add: parse_def bindE_eq_Inl)
qed simp_all

theorem malformed_header_witness:
  "parseHeader (newTiff buffer_bad_order options_grouped) = Inl MalformedHeader \<and>
   parseHeader (newTiff buffer_bad_magic options_grouped) = Inl MalformedHeader \<and>
   parseHeader (newTiff buffer_big_endian options_grouped) =
     Inr ((newTiff (buffer_big_endian\<lparr>le := False\<rparr>) options_grouped)\<lparr>tiff_le := Some False\<rparr>) \<and>
   parse externals_plain (newTiff buffer_low_ifd0 options_grouped) = Inl MalformedHeader \<and>
   parse externals_plain (newTiff buffer_big_endian options_grouped) \<noteq> Inl MalformedHeader"
proof (intro conjI)
  let ?low = "newTiff buffer_low_ifd0 options_grouped"
  let ?big = "newTiff buffer_big_endian options_grouped"
  note c = malformed_header [of "newTiff buffer_bad_order options_grouped" "newTiff buffer_low_ifd0 options_grouped" False externals_plain]
  from c [THEN conjunct1]
  show "parseHeader (newTiff buffer_bad_order options_grouped) = Inl MalformedHeader"
    by (simp add: newTiff_def buffer_bad_order_def reader_defs)
  note m = malformed_header [of "newTiff buffer_bad_magic options_grouped" "newTiff buffer_low_ifd0 options_grouped" False externals_plain]
  from m [THEN conjunct1]
  show "parseHeader (newTiff buffer_bad_magic options_grouped) = Inl MalformedHeader"
    by (simp add: newTiff_def buffer_bad_magic_def reader_defs)
  show "parseHeader ?big = Inr ((newTiff (buffer_big_endian\<lparr>le := False\<rparr>) options_grouped)\<lparr>tiff_le := Some False\<rparr>)"
    by (simp add: parseHeader_def newTiff_def buffer_big_endian_def reader_defs)
  have h: "parseHeader ?low = Inr ((newTiff (buffer_low_ifd0\<lparr>le := True\<rparr>) options_grouped)\<lparr>tiff_le := Some True\<rparr>)"
    by (simp add: parseHeader_def newTiff_def buffer_low_ifd0_def reader_defs)
  have i: "parseIfd0Block ((newTiff (buffer_low_ifd0\<lparr>le := True\<rparr>) options_grouped)\<lparr>tiff_le := Some True\<rparr>)
             = Inl MalformedHeader"
    using malformed_header [of "(newTiff (buffer_low_ifd0\<lparr>le := True\<rparr>) options_grouped)\<lparr>tiff_le := Some True\<rparr>"
        "newTiff buffer_low_ifd0 options_grouped" False externals_plain, THEN conjunct2, THEN conjunct2, THEN conjunct1]
    by (simp add: newTiff_def buffer_low_ifd0_def reader_defs)
  from malformed_header [of ?low "newTiff buffer_low_ifd0 options_grouped" False externals_plain] h i
  show "parse externals_plain ?low = Inl MalformedHeader"
    by simp
  have h': "parseHeader ?big \<noteq> Inl MalformedHeader"
    by (simp add: parseHeader_def newTiff_def buffer_big_endian_def reader_defs)
  have i': "parseIfd0Block ((newTiff (buffer_big_endian\<lparr>le := False\<rparr>) options_grouped)\<lparr>tiff_le := Some False\<rparr>)
             \<noteq> Inl MalformedHeader"
    using malformed_header [of "(newTiff (buffer_big_endian\<lparr>le := False\<rparr>) options_grouped)\<lparr>tiff_le := Some False\<rparr>"
        "newTiff buffer_low_ifd0 options_grouped" False externals_plain, THEN conjunct2, THEN conjunct2, THEN conjunct1]
    by (simp add: newTiff_def buffer_big_endian_def reader_defs)
  have "parseHeader ?big = Inr ((newTiff (buffer_big_endian\<lparr>le := False\<rparr>) options_grouped)\<lparr>tiff_le := Some False\<rparr>)"
    by (simp add: parseHeader_def newTiff_def buffer_big_endian_def reader_defs)
  with malformed_header [of ?big "newTiff buffer_low_ifd0 options_grouped" False externals_plain] h' i'
  show "parse externals_plain ?big \<noteq> Inl MalformedHeader"
    by simp
qed

section \<open>The block parsers\<close>

text \<open>The sample buffer is evaluated with these.\<close>

lemma char_of_nat_values:
  "char_of (0::nat) = CHR 0x00" "char_of (0x4E::nat) = CHR ''N''" "char_of (0x52::nat) = CHR ''R''"
  "char_of (0x39::nat) = CHR ''9''" "char_of (0x38::nat) = CHR ''8''"
  by code_simp+

lemmas sample_defs = buffer_sample_def options_grouped_def tiff_sample_header_def
  tiff_sample_ifd0_def tiff_sample_gps_def tiff_sample_interop_def tiff_sample_thumbnail_def


text \<open>What a successful run of each block parser leaves.\<close>

lemma map_of_filter_keys:
  "map_of (filter (\<lambda>kv. fst kv \<notin> S) b) k = (if k \<in> S then None else map_of b k)"
  by (induction b) auto

lemma obj_delete_three:
  "obj_delete k3 (obj_delete k2 (obj_delete k1 b)) = filter (\<lambda>kv. fst kv \<notin> {k1, k2, k3}) b"
  by (induction b) (auto simp: obj_delete_def)


lemma parseIfd0Block_result:
  assumes "ifd0 d = None" and "parseIfd0Block d = Inr d'"
  shows "\<exists>off b. getUint32 (view d) 4 = Inr off \<and> \<not> off < 8 \<and>
           parseTags (view d) (options d) off = Inr b \<and>
           d' = (if b = [] then d\<lparr>ifd0Offset := Some off, ifd0 := Some b\<rparr>
                 else d\<lparr>ifd0Offset := Some off,
                        ifd0 := Some (if sanitize (options d)
                                      then obj_delete (Tag TAG_IFD_GPS)
                                             (obj_delete (Tag TAG_IFD_INTEROP)
                                               (obj_delete (Tag TAG_IFD_EXIF) b))
                                      else b),
                        exifOffset := obj_get b (Tag TAG_IFD_EXIF),
                        interopOffset := obj_get b (Tag TAG_IFD_INTEROP),
                        gpsOffset := obj_get b (Tag TAG_IFD_GPS)\<rparr>)"
proof (cases "getUint32 (view d) 4")
  case (Inl e)
  with assms show ?thesis
    by (simp add: parseIfd0Block_def)
next
  case off: (Inr off)
  show ?thesis
  proof (cases "off < 8")
    case True
    with assms off show ?thesis
      by (simp add: parseIfd0Block_def)
  next
    case False
    show ?thesis
    proof (cases "parseTags (view d) (options d) off")
      case (Inl e)
      with assms off False show ?thesis
        by (simp add: parseIfd0Block_def)
    next
      case b: (Inr b)
      with assms off False show ?thesis
        by (cases "b = []"; cases "sanitize (options d)")
           (auto simp: parseIfd0Block_def Let_def)
    qed
  qed
qed

lemma parseIfd0Block_populates:
  assumes "parseIfd0Block d = Inr d'"
  shows "ifd0 d' \<noteq> None"
proof (cases "ifd0 d")
  case None
  from parseIfd0Block_result [OF None assms] show ?thesis
    by (auto split: if_splits)
next
  case (Some b)
  with assms show ?thesis
    by (simp add: parseIfd0Block_def)
qed

lemma parseExifBlock_result:
  assumes "parseExifBlock d = Inr d'"
  shows "d' = d \<or> exif d' \<noteq> None"
proof (cases "exif d \<noteq> None \<or> exifOffset d = None")
  case True
  with assms show ?thesis
    by (auto simp: parseExifBlock_def split: if_splits)
next
  case False
  then obtain off where "exif d = None" "exifOffset d = Some off"
    by auto
  with assms show ?thesis
    by (cases "parseTagsAt (view d) (options d) off") (auto simp: parseExifBlock_def)
qed

lemma parseGpsBlock_result:
  assumes "parseGpsBlock d = Inr d'"
  shows "d' = d \<or> gps d' \<noteq> None"
proof (cases "gps d \<noteq> None \<or> gpsOffset d = None")
  case True
  with assms show ?thesis
    by (auto simp: parseGpsBlock_def split: if_splits)
next
  case False
  then obtain off where "gps d = None" "gpsOffset d = Some off"
    by auto
  with assms show ?thesis
    by (cases "parseTagsAt (view d) (options d) off") (auto simp: parseGpsBlock_def)
qed

lemma interopOffset_same: "interopOffset d = x \<Longrightarrow> d\<lparr>interopOffset := x\<rparr> = d"
  by (cases d) simp

lemma parseInteropBlock_result:
  assumes "parseInteropBlock d = Inr d'"
  shows "interop d' \<noteq> None \<or>
         (interop d' = None \<and> interopOffset d' = None \<and>
          (case exif d' of None \<Rightarrow> None | Some e \<Rightarrow> obj_get e (Tag TAG_IFD_INTEROP)) = None)"
proof (cases "interop d")
  case (Some b)
  with assms show ?thesis
    by (simp add: parseInteropBlock_def)
next
  case None
  let ?fallback = "case exif d of None \<Rightarrow> None | Some e \<Rightarrow> obj_get e (Tag TAG_IFD_INTEROP)"
  let ?off = "case interopOffset d of
                Some x \<Rightarrow> if truthy x then Some x else ?fallback
              | None \<Rightarrow> ?fallback"
  have "parseInteropBlock d =
          (case ?off of
             None \<Rightarrow> Inr (d\<lparr>interopOffset := ?off\<rparr>)
           | Some off \<Rightarrow> bindE (parseTagsAt (view d) (options d) off)
                           (\<lambda>b. Inr (d\<lparr>interopOffset := ?off, interop := Some b\<rparr>)))"
    by (simp add: parseInteropBlock_def Let_def None cong: option.case_cong)
  with assms have run:
    "(case ?off of
        None \<Rightarrow> Inr (d\<lparr>interopOffset := ?off\<rparr>)
      | Some off \<Rightarrow> bindE (parseTagsAt (view d) (options d) off)
                      (\<lambda>b. Inr (d\<lparr>interopOffset := ?off, interop := Some b\<rparr>))) = Inr d'"
    by simp
  show ?thesis
  proof (cases ?off)
    case off: None
    then have "?fallback = None"
      by (auto split: option.splits if_splits)
    with run off None show ?thesis
      by auto
  next
    case (Some off)
    with run show ?thesis
      by (cases "parseTagsAt (view d) (options d) off") auto
  qed
qed

lemma parseThumbnailBlock_again:
  assumes "parseThumbnailBlock force d = Inr (r, d')"
  shows "parseThumbnailBlock force d' = Inr (if r = Some True then None else r, d')"
proof (cases "thumbnail d \<noteq> None \<or> thumbnailParsed d")
  case True
  then have "parseThumbnailBlock force d = Inr (None, d)"
    by (auto simp: parseThumbnailBlock_def)
  with assms show ?thesis
    by simp
next
  case guard: False
  show ?thesis
  proof (cases "mergeOutput (options d) \<and> \<not> force")
    case True
    with guard have "parseThumbnailBlock force d = Inr (Some False, d)"
      by (auto simp: parseThumbnailBlock_def)
    with assms show ?thesis
      by auto
  next
    case forced: False
    show ?thesis
    proof (cases "ifd0Offset d")
      case None
      with guard forced have "parseThumbnailBlock force d = Inl NonIndexOffset"
        by (auto simp: parseThumbnailBlock_def)
      with assms show ?thesis
        by simp
    next
      case (Some off0)
      show ?thesis
      proof (cases "getUint16 (view d) off0")
        case (Inl e)
        with guard forced Some have "parseThumbnailBlock force d = Inl e"
          by (auto simp: parseThumbnailBlock_def)
        with assms show ?thesis
          by simp
      next
        case n: (Inr n)
        show ?thesis
        proof (cases "getUint32 (view d) (off0 + 2 + n * 12)")
          case (Inl e)
          with guard forced Some n have "parseThumbnailBlock force d = Inl e"
            by (auto simp: parseThumbnailBlock_def)
          with assms show ?thesis
            by simp
        next
          case off1: (Inr off1)
          show ?thesis
          proof (cases "off1 = 0")
            case True
            with guard forced Some n off1
            have "parseThumbnailBlock force d = Inr (Some False, d\<lparr>ifd1Offset := Some 0\<rparr>)"
              by (auto simp: parseThumbnailBlock_def)
            with assms have "r = Some False" and "d' = d\<lparr>ifd1Offset := Some 0\<rparr>"
              by simp_all
            with guard forced Some n off1 True show ?thesis
              by (auto simp: parseThumbnailBlock_def)
          next
            case False
            show ?thesis
            proof (cases "parseTags (view d) (options d) off1")
              case (Inl e)
              with guard forced Some n off1 False have "parseThumbnailBlock force d = Inl e"
                by (auto simp: parseThumbnailBlock_def)
              with assms show ?thesis
                by simp
            next
              case (Inr b)
              with guard forced Some n off1 False
              have "parseThumbnailBlock force d =
                      Inr (Some True, d\<lparr>ifd1Offset := Some off1, thumbnail := Some b,
                                         thumbnailParsed := True\<rparr>)"
                by (auto simp: parseThumbnailBlock_def)
              with assms have "r = Some True"
                and "d' = d\<lparr>ifd1Offset := Some off1, thumbnail := Some b, thumbnailParsed := True\<rparr>"
                by simp_all
              then show ?thesis
                by (auto simp: parseThumbnailBlock_def)
            qed
          qed
        qed
      qed
    qed
  qed
qed


text \<open>
  C7: every block-parsing operation is idempotent. Once its block is populated (for the
  thumbnail: once the block is populated or \<open>thumbnailParsed\<close> is set), a further
  invocation returns at its guard and leaves the whole decoder state unchanged: blocks,
  captured offsets and output. And after any successful invocation, invoking the
  operation again succeeds and leaves the state it finds.
\<close>

theorem block_parsers_idempotent:
  "(ifd0 d \<noteq> None \<longrightarrow> parseIfd0Block d = Inr d) \<and>
   (exif d \<noteq> None \<longrightarrow> parseExifBlock d = Inr d) \<and>
   (gps d \<noteq> None \<longrightarrow> parseGpsBlock d = Inr d) \<and>
   (interop d \<noteq> None \<longrightarrow> parseInteropBlock d = Inr d) \<and>
   (thumbnail d \<noteq> None \<or> thumbnailParsed d \<longrightarrow> parseThumbnailBlock force d = Inr (None, d)) \<and>
   (parseIfd0Block d = Inr d' \<longrightarrow> parseIfd0Block d' = Inr d') \<and>
   (parseExifBlock d = Inr d' \<longrightarrow> parseExifBlock d' = Inr d') \<and>
   (parseGpsBlock d = Inr d' \<longrightarrow> parseGpsBlock d' = Inr d') \<and>
   (parseInteropBlock d = Inr d' \<longrightarrow> parseInteropBlock d' = Inr d') \<and>
   (parseThumbnailBlock force d = Inr (r, d') \<longrightarrow>
      parseThumbnailBlock force d' = Inr (if r = Some True then None else r, d'))"
proof (intro conjI impI)
  assume "parseIfd0Block d = Inr d'"
  from parseIfd0Block_populates [OF this] show "parseIfd0Block d' = Inr d'"
    by (simp add: parseIfd0Block_def)
next
  assume run: "parseExifBlock d = Inr d'"
  from parseExifBlock_result [OF run] run show "parseExifBlock d' = Inr d'"
    by (auto simp: parseExifBlock_def)
next
  assume run: "parseGpsBlock d = Inr d'"
  from parseGpsBlock_result [OF run] run show "parseGpsBlock d' = Inr d'"
    by (auto simp: parseGpsBlock_def)
next
  assume run: "parseInteropBlock d = Inr d'"
  from parseInteropBlock_result [OF run] show "parseInteropBlock d' = Inr d'"
    by (auto simp: parseInteropBlock_def Let_def interopOffset_same)
next
  assume "parseThumbnailBlock force d = Inr (r, d')"
  then show "parseThumbnailBlock force d' = Inr (if r = Some True then None else r, d')"
    by (rule parseThumbnailBlock_again)
qed (simp_all add: parseIfd0Block_def parseExifBlock_def parseGpsBlock_def parseInteropBlock_def
      parseThumbnailBlock_def)


theorem block_parsers_idempotent_witness:
  "ifd0 tiff_sample_thumbnail \<noteq> None \<and> exif tiff_sample_thumbnail \<noteq> None \<and>
   gps tiff_sample_thumbnail \<noteq> None \<and> interop tiff_sample_thumbnail \<noteq> None \<and>
   thumbnail tiff_sample_thumbnail \<noteq> None \<and>
   parseIfd0Block tiff_sample_thumbnail = Inr tiff_sample_thumbnail \<and>
   parseExifBlock tiff_sample_thumbnail = Inr tiff_sample_thumbnail \<and>
   parseGpsBlock tiff_sample_thumbnail = Inr tiff_sample_thumbnail \<and>
   parseInteropBlock tiff_sample_thumbnail = Inr tiff_sample_thumbnail \<and>
   parseThumbnailBlock True tiff_sample_thumbnail = Inr (None, tiff_sample_thumbnail) \<and>
   parseThumbnailBlock False tiff_sample_interop = Inr (Some True, tiff_sample_thumbnail) \<and>
   parseThumbnailBlock False tiff_sample_thumbnail = Inr (None, tiff_sample_thumbnail)"
proof -
  have populated:
    "ifd0 tiff_sample_thumbnail \<noteq> None" "exif tiff_sample_thumbnail \<noteq> None"
    "gps tiff_sample_thumbnail \<noteq> None" "interop tiff_sample_thumbnail \<noteq> None"
    "thumbnail tiff_sample_thumbnail \<noteq> None"
    by (simp_all add: sample_defs newTiff_def)
  have first: "parseThumbnailBlock False tiff_sample_interop = Inr (Some True, tiff_sample_thumbnail)"
    by (simp add: block_defs decode_defs reader_defs sample_defs)
  from block_parsers_idempotent [of tiff_sample_thumbnail True tiff_sample_thumbnail None] populated
  have guards:
    "parseIfd0Block tiff_sample_thumbnail = Inr tiff_sample_thumbnail"
    "parseExifBlock tiff_sample_thumbnail = Inr tiff_sample_thumbnail"
    "parseGpsBlock tiff_sample_thumbnail = Inr tiff_sample_thumbnail"
    "parseInteropBlock tiff_sample_thumbnail = Inr tiff_sample_thumbnail"
    "parseThumbnailBlock True tiff_sample_thumbnail = Inr (None, tiff_sample_thumbnail)"
    by blast+
  from block_parsers_idempotent [of tiff_sample_interop False tiff_sample_thumbnail "Some True"] first
  have again: "parseThumbnailBlock False tiff_sample_thumbnail = Inr (None, tiff_sample_thumbnail)"
    by simp
  from populated guards first again show ?thesis
    by blast
qed


section \<open>Sanitizing IFD0\<close>

text \<open>
  C9: a successful \<open>parseIfd0Block\<close> on a decoder without \<open>ifd0\<close> decodes the directory
  \<open>b\<close> at the IFD0 offset; when \<open>b\<close> is not empty the three offsets are captured from
  \<open>b\<close> itself. With the sanitize option the emitted \<open>ifd0\<close> is \<open>b\<close> without exactly
  the EXIF, Interop and GPS pointer tags, every other tag keeping its value; without the
  option the emitted \<open>ifd0\<close> is \<open>b\<close>.
\<close>

theorem sanitize_pointer_tags:
  assumes "ifd0 d = None" and "parseIfd0Block d = Inr d'"
  shows "\<exists>off b b'. getUint32 (view d) 4 = Inr off \<and>
           parseTags (view d) (options d) off = Inr b \<and>
           (b \<noteq> [] \<longrightarrow> exifOffset d' = obj_get b (Tag TAG_IFD_EXIF) \<and>
                       gpsOffset d' = obj_get b (Tag TAG_IFD_GPS) \<and>
                       interopOffset d' = obj_get b (Tag TAG_IFD_INTEROP)) \<and>
           ifd0 d' = Some b' \<and>
           b' = (if sanitize (options d)
                 then filter (\<lambda>kv. fst kv \<notin> {Tag TAG_IFD_EXIF, Tag TAG_IFD_INTEROP, Tag TAG_IFD_GPS}) b
                 else b) \<and>
           (\<forall>k. obj_get b' k =
                  (if sanitize (options d) \<and> k \<in> {Tag TAG_IFD_EXIF, Tag TAG_IFD_INTEROP, Tag TAG_IFD_GPS}
                   then None else obj_get b k))"
proof -
  let ?pointers = "{Tag TAG_IFD_EXIF, Tag TAG_IFD_INTEROP, Tag TAG_IFD_GPS}"
  from parseIfd0Block_result [OF assms] obtain off b where
    off: "getUint32 (view d) 4 = Inr off" and
    b: "parseTags (view d) (options d) off = Inr b" and
    d': "d' = (if b = [] then d\<lparr>ifd0Offset := Some off, ifd0 := Some b\<rparr>
               else d\<lparr>ifd0Offset := Some off,
                      ifd0 := Some (if sanitize (options d)
                                    then obj_delete (Tag TAG_IFD_GPS)
                                           (obj_delete (Tag TAG_IFD_INTEROP)
                                             (obj_delete (Tag TAG_IFD_EXIF) b))
                                    else b),
                      exifOffset := obj_get b (Tag TAG_IFD_EXIF),
                      interopOffset := obj_get b (Tag TAG_IFD_INTEROP),
                      gpsOffset := obj_get b (Tag TAG_IFD_GPS)\<rparr>)"
    by blast
  let ?b' = "if sanitize (options d) then filter (\<lambda>kv. fst kv \<notin> ?pointers) b else b"
  have offsets: "b \<noteq> [] \<longrightarrow> exifOffset d' = obj_get b (Tag TAG_IFD_EXIF) \<and>
                   gpsOffset d' = obj_get b (Tag TAG_IFD_GPS) \<and>
                   interopOffset d' = obj_get b (Tag TAG_IFD_INTEROP)"
    by (simp add: d')
  have emitted: "ifd0 d' = Some ?b'"
    by (cases "b = []") (simp_all add: d' obj_delete_three)
  have lookups: "\<forall>k. obj_get ?b' k =
                  (if sanitize (options d) \<and> k \<in> ?pointers then None else obj_get b k)"
    by (cases "sanitize (options d)")
       (simp_all only: obj_get_def if_True if_False map_of_filter_keys simp_thms)
  from off b offsets emitted lookups show ?thesis
    by blast
qed

theorem sanitize_pointer_tags_witness:
  "ifd0 tiff_sample_header = None \<and>
   sanitize (options tiff_sample_header) \<and>
   parseIfd0Block tiff_sample_header = Inr tiff_sample_ifd0 \<and>
   parseTags (view tiff_sample_header) (options tiff_sample_header) 8 =
     Inr [(Tag 0x0100, Num (Finite 640)), (Tag 0x8769, Num (Finite 62)),
          (Tag 0x8825, Num (Finite 92)), (Tag 0xA005, Num (Finite 0))] \<and>
   ifd0 tiff_sample_ifd0 = Some [(Tag 0x0100, Num (Finite 640))] \<and>
   (\<exists>off b b'. getUint32 (view tiff_sample_header) 4 = Inr off \<and>
      parseTags (view tiff_sample_header) (options tiff_sample_header) off = Inr b \<and>
      ifd0 tiff_sample_ifd0 = Some b' \<and>
      b' = filter (\<lambda>kv. fst kv \<notin> {Tag TAG_IFD_EXIF, Tag TAG_IFD_INTEROP, Tag TAG_IFD_GPS}) b)"
proof (intro conjI)
  have unparsed: "ifd0 tiff_sample_header = None"
    by (simp add: sample_defs newTiff_def)
  have run: "parseIfd0Block tiff_sample_header = Inr tiff_sample_ifd0"
    by (simp add: block_defs decode_defs reader_defs sample_defs)
  have on: "sanitize (options tiff_sample_header)"
    by (simp add: sample_defs newTiff_def)
  from sanitize_pointer_tags [OF unparsed run] on
  show "\<exists>off b b'. getUint32 (view tiff_sample_header) 4 = Inr off \<and>
      parseTags (view tiff_sample_header) (options tiff_sample_header) off = Inr b \<and>
      ifd0 tiff_sample_ifd0 = Some b' \<and>
      b' = filter (\<lambda>kv. fst kv \<notin> {Tag TAG_IFD_EXIF, Tag TAG_IFD_INTEROP, Tag TAG_IFD_GPS}) b"
    by auto
qed (simp_all add: block_defs decode_defs reader_defs sample_defs)


section \<open>The Interop pointer\<close>

text \<open>
  C10: when the Interop offset captured from IFD0 is missing or falsy (the value 0 is
  falsy), \<open>parseInteropBlock\<close> takes the Interop pointer tag of the \<open>exif\<close> block
  instead, when that block exists; it decodes the Interop directory only when the
  resulting offset is defined, and otherwise returns with the offset \<open>undefined\<close>. So
  an IFD0 pointer of 0 is never dereferenced. A truthy IFD0 pointer is used as it is.
\<close>

theorem interop_fallback:
  assumes "interop d = None"
  shows "(interopOffset d = None \<or> (\<exists>x. interopOffset d = Some x \<and> \<not> truthy x) \<longrightarrow>
            parseInteropBlock d =
              (case (case exif d of None \<Rightarrow> None | Some e \<Rightarrow> obj_get e (Tag TAG_IFD_INTEROP)) of
                 None \<Rightarrow> Inr (d\<lparr>interopOffset := None\<rparr>)
               | Some off \<Rightarrow>
                   bindE (parseTagsAt (view d) (options d) off) (\<lambda>b.
                     Inr (d\<lparr>interopOffset := Some off, interop := Some b\<rparr>)))) \<and>
         (\<forall>x. interopOffset d = Some x \<and> truthy x \<longrightarrow>
            parseInteropBlock d =
              bindE (parseTagsAt (view d) (options d) x) (\<lambda>b. Inr (d\<lparr>interop := Some b\<rparr>))) \<and>
         \<not> truthy (Num (Finite 0))"
  using assms
  by (auto simp: parseInteropBlock_def Let_def interopOffset_same split: option.splits)


theorem interop_fallback_witness:
  "interop tiff_sample_gps = None \<and>
   interopOffset tiff_sample_gps = Some (Num (Finite 0)) \<and>
   exif tiff_sample_gps = Some [(Tag 0x0100, Num (Finite 7)), (Tag 0xA005, Num (Finite 110))] \<and>
   parseTagsAt (view tiff_sample_gps) (options tiff_sample_gps) (Num (Finite 110)) =
     Inr [(Tag 0x0001, Str ''R98'')] \<and>
   parseInteropBlock tiff_sample_gps =
     Inr (tiff_sample_gps\<lparr>interopOffset := Some (Num (Finite 110)),
                          interop := Some [(Tag 0x0001, Str ''R98'')]\<rparr>)"
proof (intro conjI)
  have unparsed: "interop tiff_sample_gps = None"
    by (simp add: sample_defs newTiff_def)
  have zero: "interopOffset tiff_sample_gps = Some (Num (Finite 0))"
    by (simp add: sample_defs newTiff_def)
  have pointer: "(case exif tiff_sample_gps of None \<Rightarrow> None
                  | Some e \<Rightarrow> obj_get e (Tag TAG_IFD_INTEROP)) = Some (Num (Finite 110))"
    by (simp add: sample_defs newTiff_def obj_get_def TAG_IFD_INTEROP_def)
  have dir: "parseTagsAt (view tiff_sample_gps) (options tiff_sample_gps) (Num (Finite 110)) =
               Inr [(Tag 0x0001, Str ''R98'')]"
    by (simp add: block_defs decode_defs reader_defs sample_defs getString_def stripNul.simps
        char_of_nat_values)
  from interop_fallback [OF unparsed, THEN conjunct1] zero
  have "parseInteropBlock tiff_sample_gps =
          (case (case exif tiff_sample_gps of None \<Rightarrow> None
                 | Some e \<Rightarrow> obj_get e (Tag TAG_IFD_INTEROP)) of
             None \<Rightarrow> Inr (tiff_sample_gps\<lparr>interopOffset := None\<rparr>)
           | Some off \<Rightarrow>
               bindE (parseTagsAt (view tiff_sample_gps) (options tiff_sample_gps) off) (\<lambda>b.
                 Inr (tiff_sample_gps\<lparr>interopOffset := Some off, interop := Some b\<rparr>)))"
    by simp
  then show "parseInteropBlock tiff_sample_gps =
     Inr (tiff_sample_gps\<lparr>interopOffset := Some (Num (Finite 110)),
                          interop := Some [(Tag 0x0001, Str ''R98'')]\<rparr>)"
    by (simp add: pointer dir)
  show "parseTagsAt (view tiff_sample_gps) (options tiff_sample_gps) (Num (Finite 110)) =
     Inr [(Tag 0x0001, Str ''R98'')]"
    by (rule dir)
qed (simp_all add: sample_defs newTiff_def)

section \<open>Merged and grouped output\<close>

text \<open>Objects: lookup after an assignment, and keys that stay distinct.\<close>

lemma map_of_obj_insert: "k \<notin> fst ` set b \<Longrightarrow> map_of (obj_insert k v b) = (map_of b)(k \<mapsto> v)"
  by (induction b) (auto simp: fun_upd_twist)

lemma map_of_replace:
  "map_of (map (\<lambda>kv. if fst kv = k then (k, v) else kv) b) =
     (if k \<in> fst ` set b then (map_of b)(k \<mapsto> v) else map_of b)"
  by (induction b) (auto simp: fun_upd_twist)

lemma map_of_obj_set: "map_of (obj_set k v b) = (map_of b)(k \<mapsto> v)"
  by (simp add: obj_set_def map_of_obj_insert map_of_replace)

lemma keys_obj_insert: "set (map fst (obj_insert k v b)) = insert k (set (map fst b))"
proof (induction b)
  case Nil
  show ?case by simp
next
  case (Cons kv b)
  obtain k' v' where kv: "kv = (k', v')" by (cases kv)
  show ?case
  proof (cases "key_before k k'")
    case True
    then show ?thesis
      by (simp add: kv)
  next
    case False
    with Cons show ?thesis
      by (simp add: kv insert_commute)
  qed
qed

lemma distinct_obj_insert:
  "k \<notin> set (map fst b) \<Longrightarrow> distinct (map fst b) \<Longrightarrow> distinct (map fst (obj_insert k v b))"
proof (induction b)
  case Nil
  show ?case by simp
next
  case (Cons kv b)
  obtain k' v' where kv: "kv = (k', v')" by (cases kv)
  from Cons.prems have "k \<noteq> k'" "k \<notin> set (map fst b)" "k' \<notin> set (map fst b)"
    "distinct (map fst b)"
    by (auto simp: kv)
  with Cons.IH keys_obj_insert [of k v b] show ?case
    by (auto simp: kv)
qed

lemma map_fst_replace: "map fst (map (\<lambda>kv. if fst kv = k then (k, v) else kv) b) = map fst b"
  by (induction b) auto

lemma distinct_obj_set: "distinct (map fst b) \<Longrightarrow> distinct (map fst (obj_set k v b))"
  using distinct_obj_insert [of k b v]
  by (auto simp: obj_set_def map_fst_replace simp del: map_map)

lemma distinct_fold_obj_set:
  "distinct (map fst t) \<Longrightarrow> distinct (map fst (fold (\<lambda>(k, v) t'. obj_set k v t') b t))"
  by (induction b arbitrary: t) (auto simp: distinct_obj_set)

lemma distinct_fromEntries: "distinct (map fst (Object_fromEntries entries))"
  by (simp add: Object_fromEntries_def distinct_fold_obj_set)

lemma map_of_assign_one:
  "distinct (map fst b) \<Longrightarrow>
   map_of (fold (\<lambda>(k, v) t'. obj_set k v t') b t) = map_of t ++ map_of b"
proof (induction b arbitrary: t)
  case Nil
  show ?case by simp
next
  case (Cons kv b)
  obtain k v where kv: "kv = (k, v)" by (cases kv)
  from Cons.prems have fresh: "k \<notin> fst ` set b" and rest: "distinct (map fst b)"
    by (auto simp: kv)
  from fresh have none: "map_of b k = None"
    by (simp add: map_of_eq_None_iff)
  have "map_of (fold (\<lambda>(k, v) t'. obj_set k v t') (kv # b) t) =
        map_of (obj_set k v t) ++ map_of b"
    by (simp add: kv Cons.IH [OF rest])
  also have "\<dots> = map_of t ++ map_of (kv # b)"
    by (rule ext) (simp add: kv map_of_obj_set map_add_def none split: option.splits)
  finally show ?case .
qed

lemma map_of_Object_assign:
  "(\<And>src. src \<in> set srcs \<Longrightarrow> distinct_block src) \<Longrightarrow>
   map_of (Object_assign t srcs) = fold (\<lambda>src m. m ++ blockMap src) srcs (map_of t)"
  unfolding Object_assign_def
proof (induction srcs arbitrary: t)
  case Nil
  show ?case by simp
next
  case (Cons src srcs)
  from Cons.prems have src: "distinct_block src"
    and rest: "\<And>s. s \<in> set srcs \<Longrightarrow> distinct_block s"
    by simp_all
  show ?case
  proof (cases src)
    case None
    then show ?thesis
      by (simp add: Cons.IH [OF rest] blockMap_def)
  next
    case (Some b)
    with src have "distinct (map fst b)"
      by (simp add: distinct_block_def)
    with Some show ?thesis
      by (simp add: Cons.IH [OF rest] blockMap_def map_of_assign_one)
  qed
qed

lemma merged_lookup:
  assumes "distinct_block b0" "distinct_block b1" "distinct_block b2" "distinct_block b3"
    "distinct_block b4"
  shows "obj_get (Object_assign [] [b0, b1, b2, b3, b4]) k =
     (blockMap b0 ++ blockMap b1 ++ blockMap b2 ++ blockMap b3 ++ blockMap b4) k"
proof -
  have "map_of (Object_assign [] [b0, b1, b2, b3, b4]) =
        fold (\<lambda>src m. m ++ blockMap src) [b0, b1, b2, b3, b4] (map_of [])"
    using assms by (intro map_of_Object_assign) auto
  then show ?thesis
    by (simp add: obj_get_def)
qed

lemma parseTagsLoop_merge:
  "parseTagsLoop v (opts\<lparr>mergeOutput := m\<rparr>) n i off out = parseTagsLoop v opts n i off out"
proof (induction v opts n i off out rule: parseTagsLoop.induct)
  case (1 v opts n i off out)
  show ?case
  proof (cases "i < n")
    case False
    then show ?thesis
      by (simp add: parseTagsLoop.simps [of v _ n i])
  next
    case True
    show ?thesis
    proof (cases "getUint16 v off")
      case (Inl e)
      with True show ?thesis
        by (simp add: parseTagsLoop.simps [of v _ n i])
    next
      case tag: (Inr tag)
      show ?thesis
      proof (cases "tag \<in> set (pickTags opts) \<or> tag \<notin> set (skipTags opts)")
        case keep: True
        show ?thesis
        proof (cases "parseTag v off")
          case (Inl e)
          with True tag keep show ?thesis
            by (simp add: parseTagsLoop.simps [of v _ n i])
        next
          case (Inr val)
          with True tag keep 1(1) [OF True, of tag val] show ?thesis
            by (simp add: parseTagsLoop.simps [of v _ n i])
        qed
      next
        case False
        with True tag 1(2) [OF True, of tag] show ?thesis
          by (simp add: parseTagsLoop.simps [of v _ n i])
      qed
    qed
  qed
qed

lemma parseTags_merge: "parseTags v (opts\<lparr>mergeOutput := m\<rparr>) off = parseTags v opts off"
  by (simp add: parseTags_def parseTagsLoop_merge)

lemma parseTagsAt_merge: "parseTagsAt v (opts\<lparr>mergeOutput := m\<rparr>) x = parseTagsAt v opts x"
  by (simp add: parseTagsAt_def parseTags_merge cong: option.case_cong)


text \<open>Every step of \<open>parse\<close> but the thumbnail's ignores the option \<open>mergeOutput\<close>.\<close>

lemma parseTagsLoop_distinct:
  "distinct (map fst out) \<Longrightarrow> parseTagsLoop v opts n i off out = Inr b \<Longrightarrow>
   distinct (map fst b)"
proof (induction v opts n i off out rule: parseTagsLoop.induct)
  case (1 v opts n i off out)
  show ?case
  proof (cases "i < n")
    case False
    with "1.prems" show ?thesis
      by (simp add: parseTagsLoop.simps [of v opts n i])
  next
    case True
    show ?thesis
    proof (cases "getUint16 v off")
      case (Inl e)
      with True "1.prems" show ?thesis
        by (simp add: parseTagsLoop.simps [of v opts n i])
    next
      case tag: (Inr tag)
      show ?thesis
      proof (cases "tag \<in> set (pickTags opts) \<or> tag \<notin> set (skipTags opts)")
        case keep: True
        show ?thesis
        proof (cases "parseTag v off")
          case (Inl e)
          with True tag keep "1.prems" show ?thesis
            by (simp add: parseTagsLoop.simps [of v opts n i])
        next
          case (Inr val)
          with True tag keep "1.prems"
          have "parseTagsLoop v opts n (i + 1) (off + 12) (obj_set (Tag tag) val out) = Inr b"
            by (simp add: parseTagsLoop.simps [of v opts n i])
          with "1.IH"(1) [OF True _ , of tag val] keep "1.prems"(1) show ?thesis
            by (simp add: distinct_obj_set)
        qed
      next
        case False
        with True tag "1.prems"
        have "parseTagsLoop v opts n (i + 1) (off + 12) out = Inr b"
          by (simp add: parseTagsLoop.simps [of v opts n i])
        with "1.IH"(2) [OF True, of tag] False "1.prems"(1) show ?thesis
          by simp
      qed
    qed
  qed
qed

lemma parseTags_distinct: "parseTags v opts off = Inr b \<Longrightarrow> distinct (map fst b)"
  by (auto simp: parseTags_def bindE_eq_Inr dest: parseTagsLoop_distinct [rotated])

lemma parseTagsAt_distinct: "parseTagsAt v opts x = Inr b \<Longrightarrow> distinct (map fst b)"
  by (auto simp: parseTagsAt_def split: option.splits dest: parseTags_distinct)

lemma setMergeOutput_simps [simp]:
  "view (setMergeOutput m d) = view d"
  "ifd0 (setMergeOutput m d) = ifd0 d"
  "exif (setMergeOutput m d) = exif d"
  "gps (setMergeOutput m d) = gps d"
  "interop (setMergeOutput m d) = interop d"
  "thumbnail (setMergeOutput m d) = thumbnail d"
  "thumbnailParsed (setMergeOutput m d) = thumbnailParsed d"
  "ifd0Offset (setMergeOutput m d) = ifd0Offset d"
  "exifOffset (setMergeOutput m d) = exifOffset d"
  "gpsOffset (setMergeOutput m d) = gpsOffset d"
  "interopOffset (setMergeOutput m d) = interopOffset d"
  "mergeOutput (options (setMergeOutput m d)) = m"
  "opt_exif (options (setMergeOutput m d)) = opt_exif (options d)"
  "opt_gps (options (setMergeOutput m d)) = opt_gps (options d)"
  "opt_interop (options (setMergeOutput m d)) = opt_interop (options d)"
  "opt_thumbnail (options (setMergeOutput m d)) = opt_thumbnail (options d)"
  "sanitize (options (setMergeOutput m d)) = sanitize (options d)"
  "opt_postProcess (options (setMergeOutput m d)) = opt_postProcess (options d)"
  "translateTags (options (setMergeOutput m d)) = translateTags (options d)"
  "reviveValues (options (setMergeOutput m d)) = reviveValues (options d)"
  by (simp_all add: setMergeOutput_def)

lemma parseHeader_merge:
  "parseHeader (setMergeOutput m d) = bindE (parseHeader d) (\<lambda>r. Inr (setMergeOutput m r))"
proof (cases "getUint16 (view d) 0")
  case (Inl e)
  then show ?thesis
    by (simp add: parseHeader_def)
next
  case (Inr byteOrder)
  show ?thesis
  proof (cases "byteOrder = 0x4949 \<or> byteOrder = 0x4D4D")
    case False
    with Inr show ?thesis
      by (simp add: parseHeader_def)
  next
    case True
    with Inr show ?thesis
      by (cases "getUint16 ((view d)\<lparr>le := (byteOrder = 0x4949)\<rparr>) 2")
         (auto simp: parseHeader_def Let_def setMergeOutput_def)
  qed
qed

lemma parseIfd0Block_merge:
  "parseIfd0Block (setMergeOutput m d) = bindE (parseIfd0Block d) (\<lambda>r. Inr (setMergeOutput m r))"
proof (cases "ifd0 d")
  case (Some b)
  then show ?thesis
    by (simp add: parseIfd0Block_def)
next
  case None
  show ?thesis
  proof (cases "getUint32 (view d) 4")
    case (Inl e)
    with None show ?thesis
      by (simp add: parseIfd0Block_def)
  next
    case off: (Inr off)
    show ?thesis
    proof (cases "off < 8")
      case True
      with None off show ?thesis
        by (simp add: parseIfd0Block_def)
    next
      case False
      show ?thesis
      proof (cases "parseTags (view d) (options d) off")
        case (Inl e)
        with None off False show ?thesis
          by (simp add: parseIfd0Block_def setMergeOutput_def parseTags_merge)
      next
        case (Inr b)
        with None off False show ?thesis
          by (cases "b = []"; cases "sanitize (options d)")
             (simp_all add: parseIfd0Block_def Let_def setMergeOutput_def parseTags_merge)
      qed
    qed
  qed
qed

lemma parseExifBlock_merge:
  "parseExifBlock (setMergeOutput m d) = bindE (parseExifBlock d) (\<lambda>r. Inr (setMergeOutput m r))"
proof (cases "exif d \<noteq> None \<or> exifOffset d = None")
  case True
  then show ?thesis
    by (auto simp: parseExifBlock_def)
next
  case False
  then obtain off where "exif d = None" "exifOffset d = Some off"
    by auto
  then show ?thesis
    by (cases "parseTagsAt (view d) (options d) off")
       (simp_all add: parseExifBlock_def setMergeOutput_def parseTagsAt_merge)
qed

lemma parseGpsBlock_merge:
  "parseGpsBlock (setMergeOutput m d) = bindE (parseGpsBlock d) (\<lambda>r. Inr (setMergeOutput m r))"
proof (cases "gps d \<noteq> None \<or> gpsOffset d = None")
  case True
  then show ?thesis
    by (auto simp: parseGpsBlock_def)
next
  case False
  then obtain off where "gps d = None" "gpsOffset d = Some off"
    by auto
  then show ?thesis
    by (cases "parseTagsAt (view d) (options d) off")
       (simp_all add: parseGpsBlock_def setMergeOutput_def parseTagsAt_merge)
qed

lemma parseInteropBlock_merge:
  "parseInteropBlock (setMergeOutput m d) =
     bindE (parseInteropBlock d) (\<lambda>r. Inr (setMergeOutput m r))"
proof (cases "interop d")
  case (Some b)
  then show ?thesis
    by (simp add: parseInteropBlock_def)
next
  case None
  let ?fallback = "case exif d of None \<Rightarrow> None | Some e \<Rightarrow> obj_get e (Tag TAG_IFD_INTEROP)"
  let ?off = "case interopOffset d of
                Some x \<Rightarrow> if truthy x then Some x else ?fallback
              | None \<Rightarrow> ?fallback"
  have plain: "parseInteropBlock d =
          (case ?off of
             None \<Rightarrow> Inr (d\<lparr>interopOffset := ?off\<rparr>)
           | Some off \<Rightarrow> bindE (parseTagsAt (view d) (options d) off)
                           (\<lambda>b. Inr (d\<lparr>interopOffset := ?off, interop := Some b\<rparr>)))"
    by (simp add: parseInteropBlock_def Let_def None cong: option.case_cong)
  have merged: "parseInteropBlock (setMergeOutput m d) =
          (case ?off of
             None \<Rightarrow> Inr ((setMergeOutput m d)\<lparr>interopOffset := ?off\<rparr>)
           | Some off \<Rightarrow> bindE (parseTagsAt (view d) (options d) off)
                           (\<lambda>b. Inr ((setMergeOutput m d)\<lparr>interopOffset := ?off, interop := Some b\<rparr>)))"
    by (simp add: parseInteropBlock_def Let_def None setMergeOutput_def parseTagsAt_merge
        cong: option.case_cong if_cong)
  show ?thesis
  proof (cases ?off)
    case off: None
    show ?thesis
      unfolding plain merged off by (simp add: setMergeOutput_def)
  next
    case off: (Some x)
    show ?thesis
      unfolding plain merged off
      by (cases "parseTagsAt (view d) (options d) x") (simp_all add: setMergeOutput_def)
  qed
qed

lemma preserves_refl: "preserves d d"
  by (simp add: preserves_def)

lemma preserves_trans: "preserves a b \<Longrightarrow> preserves b c \<Longrightarrow> preserves a c"
  by (simp add: preserves_def)

lemma bindE_assoc: "bindE (bindE m f) g = bindE m (\<lambda>x. bindE (f x) g)"
  by (cases m) simp_all

lemma bindE_if: "bindE (if c then a else b) f = (if c then bindE a f else bindE b f)"
  by simp

lemma parseBlocks_merge:
  "parseBlocks (setMergeOutput m d) = bindE (parseBlocks d) (\<lambda>r. Inr (setMergeOutput m r))"
  by (simp add: parseBlocks_def parseHeader_merge parseIfd0Block_merge parseExifBlock_merge
      parseGpsBlock_merge parseInteropBlock_merge bindE_assoc bindE_if cong: if_cong)

lemma parseHeader_preserves: "parseHeader d = Inr r \<Longrightarrow> preserves d r"
proof (cases "getUint16 (view d) 0")
  case (Inl e)
  assume "parseHeader d = Inr r"
  with Inl show ?thesis
    by (simp add: parseHeader_def)
next
  case (Inr byteOrder)
  assume run: "parseHeader d = Inr r"
  show ?thesis
  proof (cases "byteOrder = 0x4949 \<or> byteOrder = 0x4D4D")
    case False
    with Inr run show ?thesis
      by (simp add: parseHeader_def)
  next
    case True
    with Inr run show ?thesis
      by (cases "getUint16 ((view d)\<lparr>le := (byteOrder = 0x4949)\<rparr>) 2")
         (auto simp: parseHeader_def Let_def preserves_def blocks_distinct_def split: if_splits)
  qed
qed

lemma distinct_obj_delete: "distinct (map fst b) \<Longrightarrow> distinct (map fst (obj_delete k b))"
  by (simp add: obj_delete_def distinct_map_filter)

lemma parseIfd0Block_preserves:
  assumes "parseIfd0Block d = Inr r"
  shows "preserves d r"
proof (cases "ifd0 d")
  case (Some b)
  with assms show ?thesis
    by (simp add: parseIfd0Block_def preserves_refl)
next
  case None
  from parseIfd0Block_result [OF None assms] obtain off b where
    b: "parseTags (view d) (options d) off = Inr b" and
    r: "r = (if b = [] then d\<lparr>ifd0Offset := Some off, ifd0 := Some b\<rparr>
             else d\<lparr>ifd0Offset := Some off,
                    ifd0 := Some (if sanitize (options d)
                                  then obj_delete (Tag TAG_IFD_GPS)
                                         (obj_delete (Tag TAG_IFD_INTEROP)
                                           (obj_delete (Tag TAG_IFD_EXIF) b))
                                  else b),
                    exifOffset := obj_get b (Tag TAG_IFD_EXIF),
                    interopOffset := obj_get b (Tag TAG_IFD_INTEROP),
                    gpsOffset := obj_get b (Tag TAG_IFD_GPS)\<rparr>)"
    by blast
  from parseTags_distinct [OF b] show ?thesis
    by (cases "b = []")
       (simp_all add: r preserves_def blocks_distinct_def distinct_block_def distinct_obj_delete)
qed

lemma parseExifBlock_preserves:
  assumes "parseExifBlock d = Inr r"
  shows "preserves d r"
proof (cases "exif d \<noteq> None \<or> exifOffset d = None")
  case True
  with assms have "r = d"
    by (auto simp: parseExifBlock_def split: if_splits)
  then show ?thesis
    by (simp add: preserves_refl)
next
  case False
  then obtain off where off: "exif d = None" "exifOffset d = Some off"
    by auto
  show ?thesis
  proof (cases "parseTagsAt (view d) (options d) off")
    case (Inl e)
    with assms off show ?thesis
      by (simp add: parseExifBlock_def)
  next
    case (Inr b)
    with assms off have "r = d\<lparr>exif := Some b\<rparr>"
      by (simp add: parseExifBlock_def)
    with parseTagsAt_distinct [OF Inr] show ?thesis
      by (simp add: preserves_def blocks_distinct_def distinct_block_def)
  qed
qed

lemma parseGpsBlock_preserves:
  assumes "parseGpsBlock d = Inr r"
  shows "preserves d r"
proof (cases "gps d \<noteq> None \<or> gpsOffset d = None")
  case True
  with assms have "r = d"
    by (auto simp: parseGpsBlock_def split: if_splits)
  then show ?thesis
    by (simp add: preserves_refl)
next
  case False
  then obtain off where off: "gps d = None" "gpsOffset d = Some off"
    by auto
  show ?thesis
  proof (cases "parseTagsAt (view d) (options d) off")
    case (Inl e)
    with assms off show ?thesis
      by (simp add: parseGpsBlock_def)
  next
    case (Inr b)
    with assms off have "r = d\<lparr>gps := Some b\<rparr>"
      by (simp add: parseGpsBlock_def)
    with parseTagsAt_distinct [OF Inr] show ?thesis
      by (simp add: preserves_def blocks_distinct_def distinct_block_def)
  qed
qed

lemma parseInteropBlock_preserves:
  assumes "parseInteropBlock d = Inr r"
  shows "preserves d r"
proof (cases "interop d")
  case (Some b)
  with assms show ?thesis
    by (simp add: parseInteropBlock_def preserves_refl)
next
  case None
  let ?fallback = "case exif d of None \<Rightarrow> None | Some e \<Rightarrow> obj_get e (Tag TAG_IFD_INTEROP)"
  let ?off = "case interopOffset d of
                Some x \<Rightarrow> if truthy x then Some x else ?fallback
              | None \<Rightarrow> ?fallback"
  have "parseInteropBlock d =
          (case ?off of
             None \<Rightarrow> Inr (d\<lparr>interopOffset := ?off\<rparr>)
           | Some off \<Rightarrow> bindE (parseTagsAt (view d) (options d) off)
                           (\<lambda>b. Inr (d\<lparr>interopOffset := ?off, interop := Some b\<rparr>)))"
    by (simp add: parseInteropBlock_def Let_def None cong: option.case_cong)
  with assms have run:
    "(case ?off of
        None \<Rightarrow> Inr (d\<lparr>interopOffset := ?off\<rparr>)
      | Some off \<Rightarrow> bindE (parseTagsAt (view d) (options d) off)
                      (\<lambda>b. Inr (d\<lparr>interopOffset := ?off, interop := Some b\<rparr>))) = Inr r"
    by simp
  show ?thesis
  proof (cases ?off)
    case off: None
    with run have "r = d\<lparr>interopOffset := None\<rparr>"
      by simp
    then show ?thesis
      by (simp add: preserves_def blocks_distinct_def)
  next
    case off: (Some x)
    show ?thesis
    proof (cases "parseTagsAt (view d) (options d) x")
      case (Inl e)
      with run off show ?thesis
        by simp
    next
      case (Inr b)
      with run off have "r = d\<lparr>interopOffset := Some x, interop := Some b\<rparr>"
        by simp
      with parseTagsAt_distinct [OF Inr] show ?thesis
        by (simp add: preserves_def blocks_distinct_def distinct_block_def)
    qed
  qed
qed

lemma parseBlocks_preserves:
  assumes "parseBlocks d = Inr r"
  shows "preserves d r"
proof -
  from assms obtain d1 d2 d3 d4 where
    1: "parseHeader d = Inr d1" and
    2: "parseIfd0Block d1 = Inr d2" and
    3: "(if opt_exif (options d2) then parseExifBlock d2 else Inr d2) = Inr d3" and
    4: "(if opt_gps (options d3) then parseGpsBlock d3 else Inr d3) = Inr d4" and
    5: "(if opt_interop (options d4) then parseInteropBlock d4 else Inr d4) = Inr r"
    unfolding parseBlocks_def bindE_eq_Inr by blast
  have "preserves d d1"
    using 1 by (rule parseHeader_preserves)
  moreover have "preserves d1 d2"
    using 2 by (rule parseIfd0Block_preserves)
  moreover have "preserves d2 d3"
    using 3 by (auto split: if_splits intro: parseExifBlock_preserves preserves_refl)
  moreover have "preserves d3 d4"
    using 4 by (auto split: if_splits intro: parseGpsBlock_preserves preserves_refl)
  moreover have "preserves d4 r"
    using 5 by (auto split: if_splits intro: parseInteropBlock_preserves preserves_refl)
  ultimately show ?thesis
    by (blast intro: preserves_trans)
qed

lemma parseThumbnailBlock_shape:
  assumes "parseThumbnailBlock force d = Inr (r, d')"
  shows "\<exists>off1 t p. d' = d\<lparr>thumbnail := t, ifd1Offset := off1, thumbnailParsed := p\<rparr> \<and>
           (blocks_distinct d \<longrightarrow> distinct_block t)"
proof -
  have same: "d = d\<lparr>thumbnail := thumbnail d, ifd1Offset := ifd1Offset d,
                     thumbnailParsed := thumbnailParsed d\<rparr>"
    by (cases d) simp
  have keep: "blocks_distinct d \<longrightarrow> distinct_block (thumbnail d)"
    by (simp add: blocks_distinct_def)
  show ?thesis
  proof (cases "thumbnail d \<noteq> None \<or> thumbnailParsed d")
    case True
    then have "parseThumbnailBlock force d = Inr (None, d)"
      by (auto simp: parseThumbnailBlock_def)
    with assms have "d' = d"
      by simp
    with same keep show ?thesis
      by metis
  next
    case guard: False
    show ?thesis
    proof (cases "mergeOutput (options d) \<and> \<not> force")
      case True
      with guard have "parseThumbnailBlock force d = Inr (Some False, d)"
        by (auto simp: parseThumbnailBlock_def)
      with assms have "d' = d"
        by simp
      with same keep show ?thesis
        by metis
    next
      case forced: False
      show ?thesis
      proof (cases "ifd0Offset d")
        case None
        with guard forced have "parseThumbnailBlock force d = Inl NonIndexOffset"
          by (auto simp: parseThumbnailBlock_def)
        with assms show ?thesis
          by simp
      next
        case (Some off0)
        show ?thesis
        proof (cases "getUint16 (view d) off0")
          case (Inl e)
          with guard forced Some have "parseThumbnailBlock force d = Inl e"
            by (auto simp: parseThumbnailBlock_def)
          with assms show ?thesis
            by simp
        next
          case n: (Inr n)
          show ?thesis
          proof (cases "getUint32 (view d) (off0 + 2 + n * 12)")
            case (Inl e)
            with guard forced Some n have "parseThumbnailBlock force d = Inl e"
              by (auto simp: parseThumbnailBlock_def)
            with assms show ?thesis
              by simp
          next
            case off1: (Inr off1)
            show ?thesis
            proof (cases "off1 = 0")
              case True
              with guard forced Some n off1
              have "parseThumbnailBlock force d = Inr (Some False, d\<lparr>ifd1Offset := Some 0\<rparr>)"
                by (auto simp: parseThumbnailBlock_def)
              with assms have "d' = d\<lparr>ifd1Offset := Some 0\<rparr>"
                by simp
              then have "d' = d\<lparr>thumbnail := thumbnail d, ifd1Offset := Some 0,
                                  thumbnailParsed := thumbnailParsed d\<rparr>"
                by (cases d) simp
              with keep show ?thesis
                by blast
            next
              case False
              show ?thesis
              proof (cases "parseTags (view d) (options d) off1")
                case (Inl e)
                with guard forced Some n off1 False have "parseThumbnailBlock force d = Inl e"
                  by (auto simp: parseThumbnailBlock_def)
                with assms show ?thesis
                  by simp
              next
                case (Inr b)
                with guard forced Some n off1 False
                have "parseThumbnailBlock force d =
                        Inr (Some True, d\<lparr>ifd1Offset := Some off1, thumbnail := Some b,
                                           thumbnailParsed := True\<rparr>)"
                  by (auto simp: parseThumbnailBlock_def)
                with assms
                have "d' = d\<lparr>thumbnail := Some b, ifd1Offset := Some off1, thumbnailParsed := True\<rparr>"
                  by auto
                moreover from parseTags_distinct [OF Inr] have "distinct_block (Some b)"
                  by (simp add: distinct_block_def)
                ultimately show ?thesis
                  by blast
              qed
            qed
          qed
        qed
      qed
    qed
  qed
qed

text \<open>\<open>postProcess\<close>, block by block.\<close>

lemma fold_translate:
  "fold (\<lambda>blockKey d'.
           case getBlock blockKey d' of
             None \<Rightarrow> d'
           | Some rawTags \<Rightarrow>
               setBlock blockKey (translateBlock ext (options d') blockKey rawTags) d')
     blockKeys d =
   d\<lparr>ifd0 := map_option (translateBlock ext (options d) ''ifd0'') (ifd0 d),
     exif := map_option (translateBlock ext (options d) ''exif'') (exif d),
     gps := map_option (translateBlock ext (options d) ''gps'') (gps d),
     interop := map_option (translateBlock ext (options d) ''interop'') (interop d),
     thumbnail := map_option (translateBlock ext (options d) ''thumbnail'') (thumbnail d)\<rparr>"
  by (cases d) (simp add: blockKeys_def getBlock_def setBlock_def split: option.splits)

lemma translateBlock_merge:
  "translateBlock ext (opts\<lparr>mergeOutput := m\<rparr>) = translateBlock ext opts"
  by (intro ext) (simp add: translateBlock_def)

lemma postProcess_unfold:
  "postProcess ext d =
     (if \<not> opt_postProcess (options d) then Inr d
      else
        bindE (case gps d of
                 None \<Rightarrow> Inr d
               | Some g \<Rightarrow> bindE (refineGps ext g) (\<lambda>g'. Inr (d\<lparr>gps := Some g'\<rparr>))) (\<lambda>d1.
        if translateTags (options d) \<or> reviveValues (options d) then
          Inr (d1\<lparr>ifd0 := map_option (translateBlock ext (options d) ''ifd0'') (ifd0 d1),
                  exif := map_option (translateBlock ext (options d) ''exif'') (exif d1),
                  gps := map_option (translateBlock ext (options d) ''gps'') (gps d1),
                  interop := map_option (translateBlock ext (options d) ''interop'') (interop d1),
                  thumbnail := map_option (translateBlock ext (options d) ''thumbnail'') (thumbnail d1)\<rparr>)
        else Inr d1))"
proof (cases "gps d")
  case None
  then show ?thesis
    by (simp add: postProcess_def fold_translate)
next
  case (Some g)
  then show ?thesis
    by (cases "refineGps ext g") (simp_all add: postProcess_def fold_translate)
qed

lemma refineGps_distinct:
  assumes "distinct (map fst g)" and "refineGps ext g = Inr g'"
  shows "distinct (map fst g')"
proof (cases "obj_get g (Tag GPS_LAT)")
  case None
  with assms show ?thesis
    by (simp add: refineGps_def)
next
  case lat: (Some gpsLat)
  show ?thesis
  proof (cases "obj_get g (Tag GPS_LON)")
    case None
    with assms lat show ?thesis
      by (simp add: refineGps_def)
  next
    case lon: (Some gpsLon)
    show ?thesis
    proof (cases "truthy gpsLat \<and> truthy gpsLon")
      case False
      with assms lat lon show ?thesis
        by (auto simp: refineGps_def)
    next
      case True
      with assms lat lon show ?thesis
        by (cases "spread gpsLat"; cases "spread gpsLon")
           (auto simp: refineGps_def Let_def distinct_obj_set)
    qed
  qed
qed

lemma postProcess_options: "postProcess ext d = Inr r \<Longrightarrow> options r = options d"
  unfolding postProcess_unfold
  by (cases "gps d")
     (auto simp: bindE_eq_Inr split: if_splits)

lemma distinct_block_translate:
  "distinct_block (map_option (translateBlock ext opts blockKey) b)"
  by (cases b) (simp_all add: distinct_block_def translateBlock_def Let_def distinct_fromEntries)

lemma postProcess_distinct:
  assumes "blocks_distinct d" and "postProcess ext d = Inr r"
  shows "blocks_distinct r"
proof -
  have gps_step: "distinct_block (gps d1)"
    if "(case gps d of None \<Rightarrow> Inr d
         | Some g \<Rightarrow> bindE (refineGps ext g) (\<lambda>g'. Inr (d\<lparr>gps := Some g'\<rparr>))) = Inr d1" for d1
  proof (cases "gps d")
    case None
    with that show ?thesis
      by (auto simp: distinct_block_def)
  next
    case (Some g)
    with assms(1) have "distinct (map fst g)"
      by (simp add: blocks_distinct_def distinct_block_def)
    with that Some show ?thesis
      by (auto simp: bindE_eq_Inr distinct_block_def dest: refineGps_distinct)
  qed
  have others: "ifd0 d1 = ifd0 d \<and> exif d1 = exif d \<and> interop d1 = interop d \<and>
                thumbnail d1 = thumbnail d"
    if "(case gps d of None \<Rightarrow> Inr d
         | Some g \<Rightarrow> bindE (refineGps ext g) (\<lambda>g'. Inr (d\<lparr>gps := Some g'\<rparr>))) = Inr d1" for d1
    using that by (cases "gps d") (auto simp: bindE_eq_Inr)
  from assms(2) show ?thesis
    unfolding postProcess_unfold using assms(1) gps_step others
    by (auto simp: bindE_eq_Inr blocks_distinct_def distinct_block_translate split: if_splits)
qed

lemma postProcess_merge:
  "postProcess ext (setMergeOutput m d) = bindE (postProcess ext d) (\<lambda>r. Inr (setMergeOutput m r))"
proof (cases "gps d")
  case None
  then show ?thesis
    unfolding postProcess_unfold
    by (simp add: setMergeOutput_def translateBlock_merge)
next
  case (Some g)
  then show ?thesis
    unfolding postProcess_unfold
    by (cases "refineGps ext g") (simp_all add: setMergeOutput_def translateBlock_merge)
qed

lemma postProcess_without_thumbnail:
  assumes "postProcess ext (d\<lparr>thumbnail := t, ifd1Offset := off1, thumbnailParsed := p\<rparr>) = Inr r'"
  shows "\<exists>r. postProcess ext d = Inr r \<and> ifd0 r = ifd0 r' \<and> exif r = exif r' \<and>
               gps r = gps r' \<and> interop r = interop r' \<and>
               (thumbnail d = None \<longrightarrow> thumbnail r = None)"
proof (cases "gps d")
  case None
  with assms show ?thesis
    unfolding postProcess_unfold
    by (auto split: if_splits)
next
  case (Some g)
  with assms show ?thesis
    unfolding postProcess_unfold
    by (cases "refineGps ext g") (auto split: if_splits)
qed

lemma parse_split:
  "parse ext d =
     bindE (parseBlocks d) (\<lambda>d5.
     bindE (if opt_thumbnail (options d5)
            then bindE (parseThumbnailBlock False d5) (\<lambda>r. Inr (snd r))
            else Inr d5) (\<lambda>d6.
     bindE (postProcess ext d6) (\<lambda>d7.
     Inr (d7\<lparr>tiff_output := Some (buildOutput d7)\<rparr>))))"
  by (simp add: parse_def parseBlocks_def bindE_assoc)

lemma fold_present:
  "fold (\<lambda>blockKey out. case f blockKey of None \<Rightarrow> out | Some b \<Rightarrow> out @ [(blockKey, b)]) ks acc =
     acc @ List.map_filter (\<lambda>blockKey. map_option (Pair blockKey) (f blockKey)) ks"
  by (induction ks arbitrary: acc) (auto simp: List.map_filter_simps split: option.splits)

lemma buildOutput_grouped:
  "\<not> mergeOutput (options d) \<Longrightarrow>
   buildOutput d =
     Grouped (List.map_filter (\<lambda>blockKey. map_option (Pair blockKey) (getBlock blockKey d)) blockKeys)"
  by (simp add: buildOutput_def fold_present)

lemma buildOutput_merged:
  "mergeOutput (options d) \<Longrightarrow>
   buildOutput d = Merged (Object_assign [] [ifd0 d, exif d, gps d, interop d, thumbnail d])"
  by (simp add: buildOutput_def)

lemma newTiff_merge: "newTiff v (opts\<lparr>mergeOutput := m\<rparr>) = setMergeOutput m (newTiff v opts)"
  by (simp add: newTiff_def setMergeOutput_def)

lemma newTiff_fresh:
  "blocks_distinct (newTiff v opts)" "thumbnail (newTiff v opts) = None"
  "options (newTiff v opts) = opts"
  by (simp_all add: newTiff_def blocks_distinct_def distinct_block_def)

lemma getBlock_output: "getBlock blockKey (d\<lparr>tiff_output := x\<rparr>) = getBlock blockKey d"
  by (simp add: getBlock_def)

lemma bindE_Inr_eq_Inl: "bindE m (\<lambda>r. Inr (f r)) = Inl e \<longleftrightarrow> m = Inl e"
  by (cases m) simp_all

lemma parse_without_thumbnail:
  assumes "\<not> opt_thumbnail (options d)"
  shows "parse ext (setMergeOutput m d) =
           bindE (bindE (parseBlocks d) (postProcess ext)) (\<lambda>r.
             Inr ((setMergeOutput m r)\<lparr>tiff_output := Some (buildOutput (setMergeOutput m r))\<rparr>))"
proof (cases "parseBlocks d")
  case (Inl e)
  then show ?thesis
    by (simp add: parse_split parseBlocks_merge)
next
  case (Inr d5)
  from parseBlocks_preserves [OF Inr] assms have "\<not> opt_thumbnail (options d5)"
    by (simp add: preserves_def)
  with Inr show ?thesis
    by (cases "postProcess ext d5") (simp_all add: parse_split parseBlocks_merge postProcess_merge)
qed

lemmas parse_defs = parse_def postProcess_def buildOutput_def Object_assign_def blockKeys_def
  getBlock_def externals_plain_def


text \<open>
  C6, as the specification states it: two parses that differ only in \<open>mergeOutput\<close>
  produce the same tag values per block. They do not when the thumbnail option is on:
  line 245 returns before IFD1 is read in merged mode. On the sample TIFF the grouped
  parse has a \<open>thumbnail\<close> block and the merged parse has none; on the TIFF whose IFD1
  pointer lies beyond the buffer the grouped parse fails and the merged parse succeeds.
\<close>

theorem merge_output_counterexample:
  "parse externals_plain (newTiff buffer_sample (options_grouped\<lparr>mergeOutput := False\<rparr>)) =
     Inr tiff_sample_grouped \<and>
   parse externals_plain (newTiff buffer_sample (options_grouped\<lparr>mergeOutput := True\<rparr>)) =
     Inr tiff_sample_merged \<and>
   thumbnail tiff_sample_grouped = Some [(Tag 0x0103, Num (Finite 6))] \<and>
   thumbnail tiff_sample_merged = None \<and>
   parse externals_plain (newTiff buffer_far_ifd1 (options_grouped\<lparr>mergeOutput := False\<rparr>)) =
     Inl OffsetOutOfBounds \<and>
   parse externals_plain (newTiff buffer_far_ifd1 (options_grouped\<lparr>mergeOutput := True\<rparr>)) =
     Inr tiff_far_merged"
proof (intro conjI)
  show "parse externals_plain (newTiff buffer_sample (options_grouped\<lparr>mergeOutput := False\<rparr>)) =
     Inr tiff_sample_grouped"
    by (simp add: parse_defs block_defs decode_defs reader_defs sample_defs getString_def
        stripNul.simps char_of_nat_values tiff_sample_grouped_def)
  show "parse externals_plain (newTiff buffer_sample (options_grouped\<lparr>mergeOutput := True\<rparr>)) =
     Inr tiff_sample_merged"
    by (simp add: parse_defs block_defs decode_defs reader_defs sample_defs getString_def
        stripNul.simps char_of_nat_values tiff_sample_merged_def)
  show "parse externals_plain (newTiff buffer_far_ifd1 (options_grouped\<lparr>mergeOutput := False\<rparr>)) =
     Inl OffsetOutOfBounds"
    by (simp add: parse_defs block_defs decode_defs reader_defs buffer_far_ifd1_def
        options_grouped_def)
  show "parse externals_plain (newTiff buffer_far_ifd1 (options_grouped\<lparr>mergeOutput := True\<rparr>)) =
     Inr tiff_far_merged"
    by (simp add: parse_defs block_defs decode_defs reader_defs buffer_far_ifd1_def
        options_grouped_def tiff_far_merged_def tiff_far_ifd1_def)
qed (simp_all add: tiff_sample_grouped_def tiff_sample_merged_def sample_defs newTiff_def)

text \<open>
  C6, amended: for the same buffer and options differing only in \<open>mergeOutput\<close>,
  whenever the grouped parse succeeds the merged parse succeeds too, with the same
  \<open>ifd0\<close>, \<open>exif\<close>, \<open>gps\<close> and \<open>interop\<close> blocks; the merged parse decodes no thumbnail
  block. With the thumbnail option off the two parses also fail alike, and neither has a
  thumbnail block. The grouped output maps the name of each populated block to the block;
  the merged output is the flat \<open>Object.assign({}, ifd0, exif, gps, interop, thumbnail)\<close>,
  in which a key of several blocks has the value of the latest block in that order.
\<close>

theorem merge_output_shapes:
  "(parse ext (newTiff v (opts\<lparr>mergeOutput := False\<rparr>)) = Inr rF \<longrightarrow>
      (\<exists>rT m. parse ext (newTiff v (opts\<lparr>mergeOutput := True\<rparr>)) = Inr rT \<and>
         ifd0 rT = ifd0 rF \<and> exif rT = exif rF \<and> gps rT = gps rF \<and> interop rT = interop rF \<and>
         thumbnail rT = None \<and>
         (\<not> opt_thumbnail opts \<longrightarrow> thumbnail rF = None) \<and>
         tiff_output rF =
           Some (Grouped (List.map_filter
                            (\<lambda>blockKey. map_option (Pair blockKey) (getBlock blockKey rF))
                            blockKeys)) \<and>
         tiff_output rT = Some (Merged m) \<and>
         m = Object_assign [] [ifd0 rT, exif rT, gps rT, interop rT, thumbnail rT] \<and>
         (\<forall>k. obj_get m k =
                (blockMap (ifd0 rT) ++ blockMap (exif rT) ++ blockMap (gps rT) ++
                 blockMap (interop rT) ++ blockMap (thumbnail rT)) k))) \<and>
   (\<not> opt_thumbnail opts \<longrightarrow>
      (\<forall>e. parse ext (newTiff v (opts\<lparr>mergeOutput := True\<rparr>)) = Inl e \<longleftrightarrow>
           parse ext (newTiff v (opts\<lparr>mergeOutput := False\<rparr>)) = Inl e))"
proof (intro conjI impI allI)
  assume off: "\<not> opt_thumbnail opts"
  fix e
  from off have "\<not> opt_thumbnail (options (newTiff v opts))"
    by (simp add: newTiff_fresh)
  then show "parse ext (newTiff v (opts\<lparr>mergeOutput := True\<rparr>)) = Inl e \<longleftrightarrow>
             parse ext (newTiff v (opts\<lparr>mergeOutput := False\<rparr>)) = Inl e"
    by (simp add: newTiff_merge parse_without_thumbnail bindE_Inr_eq_Inl)
next
  let ?dF = "newTiff v (opts\<lparr>mergeOutput := False\<rparr>)"
  let ?dT = "newTiff v (opts\<lparr>mergeOutput := True\<rparr>)"
  assume run: "parse ext ?dF = Inr rF"
  have dT: "?dT = setMergeOutput True ?dF"
    by (simp add: newTiff_def setMergeOutput_def)
  from run obtain d5 d6 d7 where
    blocks: "parseBlocks ?dF = Inr d5" and
    thumb: "(if opt_thumbnail (options d5)
             then bindE (parseThumbnailBlock False d5) (\<lambda>r. Inr (snd r))
             else Inr d5) = Inr d6" and
    post: "postProcess ext d6 = Inr d7" and
    rF: "rF = d7\<lparr>tiff_output := Some (buildOutput d7)\<rparr>"
    unfolding parse_split bindE_eq_Inr by blast
  from parseBlocks_preserves [OF blocks]
  have d5: "thumbnail d5 = None" "options d5 = opts\<lparr>mergeOutput := False\<rparr>" "blocks_distinct d5"
    by (simp_all add: preserves_def newTiff_fresh)
  obtain t off1 p where
    d6: "d6 = d5\<lparr>thumbnail := t, ifd1Offset := off1, thumbnailParsed := p\<rparr>" and
    skipped: "\<not> opt_thumbnail opts \<longrightarrow> t = None"
  proof (cases "opt_thumbnail opts")
    case False
    with thumb d5 have "d6 = d5"
      by simp
    then have "d6 = d5\<lparr>thumbnail := thumbnail d5, ifd1Offset := ifd1Offset d5,
                          thumbnailParsed := thumbnailParsed d5\<rparr>"
      by (cases d5) simp
    with False d5(1) that show ?thesis
      by metis
  next
    case True
    with thumb d5 obtain r where "parseThumbnailBlock False d5 = Inr (r, d6)"
      by (cases "parseThumbnailBlock False d5") auto
    from parseThumbnailBlock_shape [OF this] True that show ?thesis
      by blast
  qed
  from postProcess_without_thumbnail [OF post [unfolded d6]] d5(1) obtain r where
    r: "postProcess ext d5 = Inr r" and
    same: "ifd0 r = ifd0 d7" "exif r = exif d7" "gps r = gps d7" "interop r = interop d7" and
    none: "thumbnail r = None"
    by blast
  let ?rT = "(setMergeOutput True r)\<lparr>tiff_output := Some (buildOutput (setMergeOutput True r))\<rparr>"
  let ?m = "Object_assign [] [ifd0 r, exif r, gps r, interop r, thumbnail r]"
  have merged_blocks: "parseBlocks ?dT = Inr (setMergeOutput True d5)"
    by (simp add: dT parseBlocks_merge blocks)
  have "parseThumbnailBlock False (setMergeOutput True d5) = Inr (Some False, setMergeOutput True d5)"
    using d5(1) parseBlocks_preserves [OF blocks]
    by (simp add: parseThumbnailBlock_def preserves_def newTiff_def)
  then have merged_thumb:
    "(if opt_thumbnail (options (setMergeOutput True d5))
      then bindE (parseThumbnailBlock False (setMergeOutput True d5)) (\<lambda>r. Inr (snd r))
      else Inr (setMergeOutput True d5)) = Inr (setMergeOutput True d5)"
    by simp
  have merged_post: "postProcess ext (setMergeOutput True d5) = Inr (setMergeOutput True r)"
    by (simp add: postProcess_merge r)
  have runT: "parse ext ?dT = Inr ?rT"
    unfolding parse_split by (simp only: merged_blocks bindE_Inr merged_thumb merged_post)
  have outT: "tiff_output ?rT = Some (Merged ?m)"
    by (simp add: buildOutput_merged)
  from postProcess_distinct [OF d5(3) r] have distinct: "blocks_distinct r" .
  have lookup: "\<forall>k. obj_get ?m k =
                  (blockMap (ifd0 r) ++ blockMap (exif r) ++ blockMap (gps r) ++
                   blockMap (interop r) ++ blockMap (thumbnail r)) k"
    using distinct by (intro allI merged_lookup) (simp_all add: blocks_distinct_def)
  from postProcess_options [OF post] d6 d5(2) have "\<not> mergeOutput (options d7)"
    by simp
  then have outF: "tiff_output rF =
           Some (Grouped (List.map_filter
                            (\<lambda>blockKey. map_option (Pair blockKey) (getBlock blockKey rF))
                            blockKeys))"
    by (simp add: rF buildOutput_grouped getBlock_output)
  have thumbF: "\<not> opt_thumbnail opts \<longrightarrow> thumbnail rF = None"
  proof
    assume "\<not> opt_thumbnail opts"
    with skipped d6 d5(1) have "d6 = d5\<lparr>ifd1Offset := off1, thumbnailParsed := p\<rparr>" "thumbnail d6 = None"
      by simp_all
    with post show "thumbnail rF = None"
      unfolding postProcess_unfold rF
      by (cases "gps d6") (auto simp: bindE_eq_Inr split: if_splits)
  qed
  show "\<exists>rT m. parse ext ?dT = Inr rT \<and>
         ifd0 rT = ifd0 rF \<and> exif rT = exif rF \<and> gps rT = gps rF \<and> interop rT = interop rF \<and>
         thumbnail rT = None \<and>
         (\<not> opt_thumbnail opts \<longrightarrow> thumbnail rF = None) \<and>
         tiff_output rF =
           Some (Grouped (List.map_filter
                            (\<lambda>blockKey. map_option (Pair blockKey) (getBlock blockKey rF))
                            blockKeys)) \<and>
         tiff_output rT = Some (Merged m) \<and>
         m = Object_assign [] [ifd0 rT, exif rT, gps rT, interop rT, thumbnail rT] \<and>
         (\<forall>k. obj_get m k =
                (blockMap (ifd0 rT) ++ blockMap (exif rT) ++ blockMap (gps rT) ++
                 blockMap (interop rT) ++ blockMap (thumbnail rT)) k)"
  proof (intro exI [of _ ?rT] exI [of _ ?m] conjI)
    show "parse ext ?dT = Inr ?rT" by (rule runT)
    show "tiff_output rF =
           Some (Grouped (List.map_filter
                            (\<lambda>blockKey. map_option (Pair blockKey) (getBlock blockKey rF))
                            blockKeys))"
      by (rule outF)
    show "\<not> opt_thumbnail opts \<longrightarrow> thumbnail rF = None" by (rule thumbF)
    show "tiff_output ?rT = Some (Merged ?m)" by (rule outT)
    show "\<forall>k. obj_get ?m k =
                (blockMap (ifd0 ?rT) ++ blockMap (exif ?rT) ++ blockMap (gps ?rT) ++
                 blockMap (interop ?rT) ++ blockMap (thumbnail ?rT)) k"
      using lookup by simp
  qed (simp_all add: same none rF)
qed

theorem merge_output_shapes_witness:
  "parse externals_plain (newTiff buffer_sample (options_grouped\<lparr>mergeOutput := False\<rparr>)) =
     Inr tiff_sample_grouped \<and>
   parse externals_plain (newTiff buffer_sample (options_grouped\<lparr>mergeOutput := True\<rparr>)) =
     Inr tiff_sample_merged \<and>
   ifd0 tiff_sample_merged = ifd0 tiff_sample_grouped \<and>
   exif tiff_sample_merged = exif tiff_sample_grouped \<and>
   gps tiff_sample_merged = gps tiff_sample_grouped \<and>
   interop tiff_sample_merged = interop tiff_sample_grouped \<and>
   tiff_output tiff_sample_merged =
     Some (Merged [(Tag 0x0001, Str ''R98''), (Tag 0x0100, Num (Finite 7)),
                   (Tag 0xA005, Num (Finite 110))]) \<and>
   obj_get [(Tag 0x0001, Str ''R98''), (Tag 0x0100, Num (Finite 7)),
            (Tag 0xA005, Num (Finite 110))] (Tag 0x0100) =
     (blockMap (ifd0 tiff_sample_merged) ++ blockMap (exif tiff_sample_merged) ++
      blockMap (gps tiff_sample_merged) ++ blockMap (interop tiff_sample_merged) ++
      blockMap (thumbnail tiff_sample_merged)) (Tag 0x0100) \<and>
   obj_get [(Tag 0x0100, Num (Finite 640))] (Tag 0x0100) = Some (Num (Finite 640)) \<and>
   obj_get [(Tag 0x0001, Str ''R98''), (Tag 0x0100, Num (Finite 7)),
            (Tag 0xA005, Num (Finite 110))] (Tag 0x0100) = Some (Num (Finite 7)) \<and>
   parse externals_plain
     (newTiff buffer_bad_magic (options_grouped\<lparr>opt_thumbnail := False, mergeOutput := True\<rparr>)) =
     Inl MalformedHeader"
proof -
  have grouped:
    "parse externals_plain (newTiff buffer_sample (options_grouped\<lparr>mergeOutput := False\<rparr>)) =
       Inr tiff_sample_grouped"
    by (simp add: parse_defs block_defs decode_defs reader_defs sample_defs getString_def
        stripNul.simps char_of_nat_values tiff_sample_grouped_def)
  have merged:
    "parse externals_plain (newTiff buffer_sample (options_grouped\<lparr>mergeOutput := True\<rparr>)) =
       Inr tiff_sample_merged"
    by (simp add: parse_defs block_defs decode_defs reader_defs sample_defs getString_def
        stripNul.simps char_of_nat_values tiff_sample_merged_def)
  have out: "tiff_output tiff_sample_merged =
     Some (Merged [(Tag 0x0001, Str ''R98''), (Tag 0x0100, Num (Finite 7)),
                   (Tag 0xA005, Num (Finite 110))])"
    by (simp add: tiff_sample_merged_def)
  from merge_output_shapes [of externals_plain buffer_sample options_grouped tiff_sample_grouped,
      THEN conjunct1] grouped merged
  obtain m where
    same: "ifd0 tiff_sample_merged = ifd0 tiff_sample_grouped"
      "exif tiff_sample_merged = exif tiff_sample_grouped"
      "gps tiff_sample_merged = gps tiff_sample_grouped"
      "interop tiff_sample_merged = interop tiff_sample_grouped" and
    m: "tiff_output tiff_sample_merged = Some (Merged m)" and
    lookup: "\<forall>k. obj_get m k =
       (blockMap (ifd0 tiff_sample_merged) ++ blockMap (exif tiff_sample_merged) ++
        blockMap (gps tiff_sample_merged) ++ blockMap (interop tiff_sample_merged) ++
        blockMap (thumbnail tiff_sample_merged)) k"
    by auto
  from m out have "m = [(Tag 0x0001, Str ''R98''), (Tag 0x0100, Num (Finite 7)),
                        (Tag 0xA005, Num (Finite 110))]"
    by simp
  with lookup have precedence:
    "obj_get [(Tag 0x0001, Str ''R98''), (Tag 0x0100, Num (Finite 7)),
              (Tag 0xA005, Num (Finite 110))] (Tag 0x0100) =
     (blockMap (ifd0 tiff_sample_merged) ++ blockMap (exif tiff_sample_merged) ++
      blockMap (gps tiff_sample_merged) ++ blockMap (interop tiff_sample_merged) ++
      blockMap (thumbnail tiff_sample_merged)) (Tag 0x0100)"
    by blast
  have off: "\<not> opt_thumbnail (options_grouped\<lparr>opt_thumbnail := False\<rparr>)"
    by simp
  have "parse externals_plain
          (newTiff buffer_bad_magic (options_grouped\<lparr>opt_thumbnail := False, mergeOutput := False\<rparr>)) =
        Inl MalformedHeader"
    by (simp add: parse_defs block_defs decode_defs reader_defs buffer_bad_magic_def
        options_grouped_def)
  with merge_output_shapes [of externals_plain buffer_bad_magic
      "options_grouped\<lparr>opt_thumbnail := False\<rparr>" tiff_sample_grouped, THEN conjunct2] off
  have malformed: "parse externals_plain
          (newTiff buffer_bad_magic (options_grouped\<lparr>opt_thumbnail := False, mergeOutput := True\<rparr>)) =
        Inl MalformedHeader"
    by simp
  have found:
    "obj_get [(Tag 0x0100, Num (Finite 640))] (Tag 0x0100) = Some (Num (Finite 640))"
    "obj_get [(Tag 0x0001, Str ''R98''), (Tag 0x0100, Num (Finite 7)),
              (Tag 0xA005, Num (Finite 110))] (Tag 0x0100) = Some (Num (Finite 7))"
    by (simp_all add: obj_get_def)
  from grouped merged same out precedence found malformed show ?thesis
    by blast
qed

end
